theory Spec2Isabelle
  imports Complex_Main "HOL-Library.AList"
begin

text \<open>
  A model of \<^verbatim>\<open>generate_schema.py\<close>: the functions \<^verbatim>\<open>extract_unique_types\<close>,
  \<^verbatim>\<open>merge_nested_dicts\<close>, \<^verbatim>\<open>infer_dict_schema\<close>, \<^verbatim>\<open>infer_list_schema\<close> and
  \<^verbatim>\<open>infer_schema\<close>, first over values, then with a bound on the depth of
  calls, then over a store of list and dict objects. The command-line wrapper
  \<^verbatim>\<open>generate_schema\<close>, which reads and writes files, is not modelled.
\<close>

section \<open>Python values\<close>

text \<open>
  The values \<^verbatim>\<open>generate_schema.py\<close> works on are what \<^verbatim>\<open>json.load\<close> returns
  (\<^verbatim>\<open>None\<close>, \<^verbatim>\<open>bool\<close>, \<^verbatim>\<open>int\<close>, \<^verbatim>\<open>float\<close>, \<^verbatim>\<open>str\<close>, \<^verbatim>\<open>list\<close>, \<^verbatim>\<open>dict\<close>
  with string keys) and the instances of the class \<^verbatim>\<open>MixedType\<close> that
  \<^verbatim>\<open>merge_nested_dicts\<close> stores into its result. A dict is an association list
  in insertion order; the keys of a Python dict are distinct, and every dict
  built below is built with \<^const>\<open>AList.update\<close>, which replaces the value of a
  present key in place and appends an absent key, as \<^verbatim>\<open>d[key] = value\<close> does.
  The program never looks at the value of a float, only at its type.
\<close>

datatype pyval =
    PNone
  | PBool bool
  | PInt int
  | PFloat real
  | PStr string
  | PList "pyval list"
  | PDict "(string \<times> pyval) list"
  | PMixed

type_synonym pydict = "(string \<times> pyval) list"

text \<open>\<^verbatim>\<open>type(x).__name__\<close>\<close>

fun type_name :: "pyval \<Rightarrow> string" where
  "type_name PNone = ''NoneType''"
| "type_name (PBool b) = ''bool''"
| "type_name (PInt i) = ''int''"
| "type_name (PFloat r) = ''float''"
| "type_name (PStr s) = ''str''"
| "type_name (PList xs) = ''list''"
| "type_name (PDict kvs) = ''dict''"
| "type_name PMixed = ''MixedType''"

text \<open>\<^verbatim>\<open>isinstance(x, dict)\<close> and \<^verbatim>\<open>isinstance(x, list)\<close>\<close>

fun isinstance_dict :: "pyval \<Rightarrow> bool" where
  "isinstance_dict (PDict kvs) = True"
| "isinstance_dict v = False"

fun isinstance_list :: "pyval \<Rightarrow> bool" where
  "isinstance_list (PList xs) = True"
| "isinstance_list v = False"

text \<open>
  The items of a value known to be a dict and the elements of a value known
  to be a list; both are only applied under the matching \<^verbatim>\<open>isinstance\<close> test.
\<close>

fun dict_items :: "pyval \<Rightarrow> pydict" where
  "dict_items (PDict kvs) = kvs"
| "dict_items v = []"

fun list_elems :: "pyval \<Rightarrow> pyval list" where
  "list_elems (PList xs) = xs"
| "list_elems v = []"

text \<open>The size of a dict, counted so that a stored value is smaller than the dict.\<close>

fun dsize :: "pydict \<Rightarrow> nat" where
  "dsize [] = 0"
| "dsize ((k, v) # kvs) = size v + 2 + dsize kvs"

lemma size_list_dsize [simp]: "size_list (size_prod (\<lambda>x. 0) size) kvs = dsize kvs"
  by (induction kvs) auto

lemma size_dict_items: "isinstance_dict v \<Longrightarrow> size v = Suc (dsize (dict_items v))"
  by (cases v) simp_all

lemma size_list_elems: "isinstance_list v \<Longrightarrow> size v = Suc (size_list size (list_elems v))"
  by (cases v) simp_all

lemma dsize_update_None:
  "map_of merged k = None \<Longrightarrow> dsize (AList.update k v merged) = dsize merged + size v + 2"
  by (induction merged) (auto split: if_splits)

lemma dsize_update_Some:
  "map_of merged k = Some old \<Longrightarrow>
     dsize (AList.update k new merged) + size old = dsize merged + size new"
  by (induction merged) (auto split: if_splits)

lemma dsize_lookup: "map_of merged k = Some old \<Longrightarrow> size old + 2 \<le> dsize merged"
  by (induction merged) (auto split: if_splits)


section \<open>Merging sibling dicts\<close>

text \<open>
  \<^verbatim>\<open>
  def merge_nested_dicts(dict_list):
      merged = {}
      for d in dict_list:
          for key, value in d.items():
              if key in merged:
                  if isinstance(merged[key], dict) and isinstance(value, dict):
                      merged[key] = merge_nested_dicts([merged[key], value])
                  elif isinstance(merged[key], list) and isinstance(value, list):
                      merged[key].extend(value)
                  elif isinstance(merged[key], list) != isinstance(value, list):
                      merged[key] = MixedType()
              else:
                  merged[key] = value
      return merged
  \<close>
  \<open>merge_dicts\<close> is the outer loop and \<open>merge_items\<close> the inner loop, both
  passing the accumulator \<^verbatim>\<open>merged\<close>; \<open>merge_entry\<close> is the loop body. The
  inner \<^verbatim>\<open>if\<close> chain has no final \<^verbatim>\<open>else\<close>: when the key is present and no
  test holds, \<^verbatim>\<open>merged\<close> is left as it is.

  This is the value-level reading of the function: what the returned dict
  holds. \<^verbatim>\<open>merged[key].extend(value)\<close> also changes the list object itself,
  which \<^verbatim>\<open>merged[key] = value\<close> took from the caller's dict. The sections on
  the store read the same code over references and cells, show that effect,
  and prove that it never changes what the functions return on a value built
  by \<^verbatim>\<open>json.load\<close> (theorem \<open>st_infer_schema_refines\<close>).
\<close>

function merge_nested_dicts :: "pydict list \<Rightarrow> pydict"
  and merge_dicts :: "pydict \<Rightarrow> pydict list \<Rightarrow> pydict"
  and merge_items :: "pydict \<Rightarrow> pydict \<Rightarrow> pydict"
  and merge_entry :: "pydict \<Rightarrow> string \<Rightarrow> pyval \<Rightarrow> pydict"
where
  "merge_nested_dicts dict_list = merge_dicts [] dict_list"
| "merge_dicts merged [] = merged"
| "merge_dicts merged (d # ds) = merge_dicts (merge_items merged d) ds"
| "merge_items merged [] = merged"
| "merge_items merged ((key, val) # kvs) = merge_items (merge_entry merged key val) kvs"
| "merge_entry merged key val =
     (case map_of merged key of
        Some old \<Rightarrow>
          if isinstance_dict old \<and> isinstance_dict val then
            AList.update key (PDict (merge_nested_dicts [dict_items old, dict_items val])) merged
          else if isinstance_list old \<and> isinstance_list val then
            AList.update key (PList (list_elems old @ list_elems val)) merged
          else if isinstance_list old \<noteq> isinstance_list val then
            AList.update key PMixed merged
          else merged
      | None \<Rightarrow> AList.update key val merged)"
  by pat_completeness auto

text \<open>
  The recursive call takes \<^verbatim>\<open>merged[key]\<close> from the accumulator, so termination
  needs a bound on what the loops have accumulated: the result is never larger
  than the accumulator and the items merged into it.
\<close>

lemma merge_size_partial:
  "merge_nested_dicts_merge_dicts_merge_items_merge_entry_dom (Inl (Inl dl)) \<Longrightarrow>
     dsize (merge_nested_dicts dl) \<le> sum_list (map dsize dl)"
  "merge_nested_dicts_merge_dicts_merge_items_merge_entry_dom (Inl (Inr (merged, ds))) \<Longrightarrow>
     dsize (merge_dicts merged ds) \<le> dsize merged + sum_list (map dsize ds)"
  "merge_nested_dicts_merge_dicts_merge_items_merge_entry_dom (Inr (Inl (merged', kvs))) \<Longrightarrow>
     dsize (merge_items merged' kvs) \<le> dsize merged' + dsize kvs"
  "merge_nested_dicts_merge_dicts_merge_items_merge_entry_dom (Inr (Inr (merged'', key, val))) \<Longrightarrow>
     dsize (merge_entry merged'' key val) \<le> dsize merged'' + size val + 2"
proof (induct rule: merge_nested_dicts_merge_dicts_merge_items_merge_entry.pinduct)
  case (1 dict_list)
  then show ?case by (simp add: merge_nested_dicts.psimps)
next
  case (2 merged)
  then show ?case by (simp add: merge_dicts.psimps)
next
  case (3 merged d ds)
  then show ?case by (simp add: merge_dicts.psimps)
next
  case (4 merged)
  then show ?case by (simp add: merge_items.psimps)
next
  case (5 merged key val kvs)
  then show ?case by (simp add: merge_items.psimps)
next
  case (6 merged key val)
  note eq = merge_entry.psimps [OF 6(1)]
  show ?case
  proof (cases "map_of merged key")
    case None
    then show ?thesis by (simp add: eq dsize_update_None)
  next
    case (Some old)
    note upd = dsize_update_Some [OF Some]
    consider (dicts) "isinstance_dict old" "isinstance_dict val"
      | (lists) "\<not> (isinstance_dict old \<and> isinstance_dict val)"
          "isinstance_list old" "isinstance_list val"
      | (mixed) "\<not> (isinstance_dict old \<and> isinstance_dict val)"
          "\<not> (isinstance_list old \<and> isinstance_list val)"
          "isinstance_list old \<noteq> isinstance_list val"
      | (keep) "\<not> (isinstance_dict old \<and> isinstance_dict val)"
          "\<not> (isinstance_list old \<and> isinstance_list val)"
          "isinstance_list old = isinstance_list val"
      by blast
    then show ?thesis
    proof cases
      case dicts
      let ?m = "merge_nested_dicts [dict_items old, dict_items val]"
      from 6(2) [OF Some] dicts
      have "dsize ?m \<le> dsize (dict_items old) + dsize (dict_items val)" by simp
      with dicts have "size (PDict ?m) \<le> size old + size val"
        by (simp add: size_dict_items)
      with upd [of "PDict ?m"]
      have "dsize (AList.update key (PDict ?m) merged) \<le> dsize merged + size val + 2"
        by linarith
      moreover from dicts Some
      have "merge_entry merged key val = AList.update key (PDict ?m) merged"
        by (auto simp: eq)
      ultimately show ?thesis by (simp only:)
    next
      case lists
      let ?l = "PList (list_elems old @ list_elems val)"
      from lists have "size ?l \<le> size old + size val"
        by (simp add: size_list_elems)
      with upd [of ?l]
      have "dsize (AList.update key ?l merged) \<le> dsize merged + size val + 2"
        by linarith
      moreover from lists Some
      have "merge_entry merged key val = AList.update key ?l merged"
        by (auto simp: eq)
      ultimately show ?thesis by (simp only:)
    next
      case mixed
      with Some have "merge_entry merged key val = AList.update key PMixed merged"
        by (auto simp: eq)
      then show ?thesis using upd [of PMixed] by simp
    next
      case keep
      with Some have "merge_entry merged key val = merged"
        by (auto simp: eq)
      then show ?thesis by simp
    qed
  qed
qed

lemma merge_dom: "All merge_nested_dicts_merge_dicts_merge_items_merge_entry_dom"
proof (relation "measures
    [\<lambda>x. case x of
        Inl (Inl dl) \<Rightarrow> sum_list (map dsize dl)
      | Inl (Inr (merged, ds)) \<Rightarrow> dsize merged + sum_list (map dsize ds)
      | Inr (Inl (merged, kvs)) \<Rightarrow> dsize merged + dsize kvs
      | Inr (Inr (merged, key, val)) \<Rightarrow> dsize merged + size val + 2,
     \<lambda>x. case x of
        Inl (Inl dl) \<Rightarrow> 3
      | Inl (Inr (merged, ds)) \<Rightarrow> 2
      | Inr (Inl (merged, kvs)) \<Rightarrow> 1
      | Inr (Inr (merged, key, val)) \<Rightarrow> 0,
     \<lambda>x. case x of
        Inl (Inl dl) \<Rightarrow> 0
      | Inl (Inr (merged, ds)) \<Rightarrow> length ds
      | Inr (Inl (merged, kvs)) \<Rightarrow> length kvs
      | Inr (Inr (merged, key, val)) \<Rightarrow> 0]", goal_cases)
  case 1
  then show ?case by simp
next
  case (2 dict_list)
  then show ?case by simp
next
  case (3 merged d ds)
  then show ?case by auto
next
  case (4 merged d ds)
  from merge_size_partial(3) [OF 4] show ?case by auto
next
  case (5 merged key val kvs)
  then show ?case by auto
next
  case (6 merged key val kvs)
  from merge_size_partial(4) [OF 6] show ?case by auto
next
  case (7 merged key val old)
  from dsize_lookup [OF 7(1)] 7(2) show ?case
    by (simp add: size_dict_items)
qed

termination merge_nested_dicts
  by (rule merge_dom)

declare merge_nested_dicts.simps [simp del] merge_entry.simps [simp del]

lemma dsize_merge_nested_dicts:
  "dsize (merge_nested_dicts dl) \<le> sum_list (map dsize dl)"
  by (rule merge_size_partial(1)) (rule spec [OF merge_dom])


section \<open>Schema inference\<close>

text \<open>
  What \<^verbatim>\<open>infer_schema\<close> returns: a type name, \<^verbatim>\<open>None\<close>, a dict of schemas, or
  a list. A returned list is either written out by the program (\<^verbatim>\<open>[]\<close> or a
  one-element list, \<open>SArray\<close>) or it is the list of type names that
  \<^verbatim>\<open>extract_unique_types\<close> made from a set (\<open>SKinds\<close>). The order in which
  \<^verbatim>\<open>list(set(...))\<close> enumerates a set is not fixed by Python, so \<open>SKinds\<close>
  carries the set of names.
\<close>

datatype schema =
    SKind string
  | SNull
  | SObject "(string \<times> schema) list"
  | SArray "schema list"
  | SKinds "string set"

text \<open>
  The program has no \<^verbatim>\<open>raise\<close>; these are the exceptions its operations could
  raise: \<^verbatim>\<open>types[0]\<close> on an empty list, \<^verbatim>\<open>d.items()\<close> on a value that is no
  dict, iterating a value that is no list in \<^verbatim>\<open>chain.from_iterable\<close>, and a
  call when the interpreter's call stack is full. The functions of this
  section have no call stack and never return \<open>RecursionError\<close>; the section
  on the call stack reads the same code with a bound on the depth of calls.
\<close>

datatype error = IndexError | AttributeError | TypeError | RecursionError

text \<open>
  \<^verbatim>\<open>list(set(type(x).__name__ for x in lst))\<close>: the distinct type names, in one
  enumeration. Nothing below depends on which: the list is returned as a set
  when it has several elements, and indexed only when it has one.
\<close>

definition extract_unique_types :: "pyval list \<Rightarrow> string list" where
  "extract_unique_types lst = remdups (map type_name lst)"

fun as_dict :: "pyval \<Rightarrow> pydict option" where
  "as_dict (PDict kvs) = Some kvs"
| "as_dict v = None"

fun as_list :: "pyval \<Rightarrow> pyval list option" where
  "as_list (PList xs) = Some xs"
| "as_list v = None"

text \<open>
  \<^verbatim>\<open>d.items()\<close> for every \<^verbatim>\<open>d\<close> of the list handed to \<^verbatim>\<open>merge_nested_dicts\<close>;
  an element without \<^verbatim>\<open>items\<close> raises.
\<close>

fun all_items :: "pyval list \<Rightarrow> error + pydict list" where
  "all_items [] = Inr []"
| "all_items (d # ds) =
     (case as_dict d of
        None \<Rightarrow> Inl AttributeError
      | Some kvs \<Rightarrow> (case all_items ds of Inl e \<Rightarrow> Inl e | Inr rest \<Rightarrow> Inr (kvs # rest)))"

text \<open>\<^verbatim>\<open>list(chain.from_iterable(lst))\<close>\<close>

fun chain_from_iterable :: "pyval list \<Rightarrow> error + pyval list" where
  "chain_from_iterable [] = Inr []"
| "chain_from_iterable (x # xs) =
     (case as_list x of
        None \<Rightarrow> Inl TypeError
      | Some ys \<Rightarrow> (case chain_from_iterable xs of Inl e \<Rightarrow> Inl e | Inr rest \<Rightarrow> Inr (ys @ rest)))"

lemma all_items_size:
  "all_items lst = Inr ds \<Longrightarrow> sum_list (map dsize ds) + length lst \<le> size_list size lst"
proof (induction lst arbitrary: ds)
  case Nil
  then show ?case by simp
next
  case (Cons d lst)
  then show ?case
    by (cases d) (auto split: sum.splits)
qed

lemma chain_size:
  "chain_from_iterable lst = Inr ys \<Longrightarrow> size_list size ys + length lst \<le> size_list size lst"
proof (induction lst arbitrary: ys)
  case Nil
  then show ?case by simp
next
  case (Cons x lst)
  then show ?case
    by (cases x) (auto split: sum.splits)
qed

text \<open>
  \<^verbatim>\<open>
  def infer_dict_schema(data):
      return {key: infer_schema(value) for key, value in data.items()}

  def infer_list_schema(lst):
      if lst:
          types = extract_unique_types(lst)
          if len(types) > 1:
              return types
          if types[0] == "dict":
              return [infer_dict_schema(merge_nested_dicts(lst))]
          if types[0] == "list":
              return [infer_list_schema(list(chain.from_iterable(lst)))]
          return [types[0]]
      return []

  def infer_schema(obj):
      if isinstance(obj, (list, tuple)):
          return infer_list_schema(obj)
      elif isinstance(obj, dict):
          return infer_dict_schema(obj)
      elif obj is None:
          return None
      return type(obj).__name__
  \<close>
  \<^verbatim>\<open>json.load\<close> makes no tuples, so the first test is the test for a list.
  \<open>infer_dict_schema\<close> returns the items of the dict it builds.
\<close>

function infer_schema :: "pyval \<Rightarrow> error + schema"
  and infer_list_schema :: "pyval list \<Rightarrow> error + schema"
  and infer_dict_schema :: "pydict \<Rightarrow> error + (string \<times> schema) list"
where
  "infer_schema obj =
     (if isinstance_list obj then infer_list_schema (list_elems obj)
      else if isinstance_dict obj then
        (case infer_dict_schema (dict_items obj) of Inl e \<Rightarrow> Inl e | Inr s \<Rightarrow> Inr (SObject s))
      else if obj = PNone then Inr SNull
      else Inr (SKind (type_name obj)))"
| "infer_list_schema lst =
     (if lst \<noteq> [] then
        (let types = extract_unique_types lst in
         if length types > 1 then Inr (SKinds (set types))
         else
           (case types of
              [] \<Rightarrow> Inl IndexError
            | t0 # ts \<Rightarrow>
                if t0 = ''dict'' then
                  (case all_items lst of
                     Inl e \<Rightarrow> Inl e
                   | Inr ds \<Rightarrow>
                       (case infer_dict_schema (merge_nested_dicts ds) of
                          Inl e \<Rightarrow> Inl e
                        | Inr s \<Rightarrow> Inr (SArray [SObject s])))
                else if t0 = ''list'' then
                  (case chain_from_iterable lst of
                     Inl e \<Rightarrow> Inl e
                   | Inr flat \<Rightarrow>
                       (case infer_list_schema flat of
                          Inl e \<Rightarrow> Inl e
                        | Inr s \<Rightarrow> Inr (SArray [s])))
                else Inr (SArray [SKind t0])))
      else Inr (SArray []))"
| "infer_dict_schema [] = Inr []"
| "infer_dict_schema ((key, val) # kvs) =
     (case infer_schema val of
        Inl e \<Rightarrow> Inl e
      | Inr s \<Rightarrow>
          (case infer_dict_schema kvs of
             Inl e \<Rightarrow> Inl e
           | Inr rest \<Rightarrow> Inr ((key, s) # rest)))"
  by pat_completeness auto

termination
proof (relation "measure (\<lambda>x. case x of
        Inl obj \<Rightarrow> size obj
      | Inr (Inl lst) \<Rightarrow> size_list size lst
      | Inr (Inr kvs) \<Rightarrow> dsize kvs)", goal_cases)
  case 1
  show ?case by simp
next
  case (2 obj)
  then show ?case by (simp add: size_list_elems)
next
  case (3 obj)
  then show ?case by (simp add: size_dict_items)
next
  case (4 lst types t0 ts ds)
  then have "1 \<le> length lst" and "all_items lst = Inr ds"
    by (cases lst; simp)+
  with all_items_size [of lst ds] dsize_merge_nested_dicts [of ds]
  show ?case by simp
next
  case (5 lst types t0 ts flat)
  then have "1 \<le> length lst" and "chain_from_iterable lst = Inr flat"
    by (cases lst; simp)+
  with chain_size [of lst flat] show ?case by simp
next
  case (6 key val kvs)
  show ?case by simp
next
  case (7 key val kvs s)
  show ?case by simp
qed

declare infer_schema.simps [simp del] infer_list_schema.simps [simp del]


section \<open>Properties of the inference\<close>

subsection \<open>The branches of \<open>infer_list_schema\<close>\<close>

lemma type_name_dict: "type_name x = ''dict'' \<Longrightarrow> \<exists>kvs. x = PDict kvs"
  by (cases x) simp_all

lemma type_name_list: "type_name x = ''list'' \<Longrightarrow> \<exists>xs. x = PList xs"
  by (cases x) simp_all

lemma length_extract_unique_types:
  "length (extract_unique_types lst) = card (type_name ` set lst)"
  by (simp add: extract_unique_types_def length_remdups_card_conv)

lemma set_extract_unique_types:
  "set (extract_unique_types lst) = type_name ` set lst"
  by (simp add: extract_unique_types_def)

lemma extract_unique_types_same:
  assumes "lst \<noteq> []" and "\<forall>x\<in>set lst. type_name x = t"
  shows "extract_unique_types lst = [t]"
proof -
  from assms have "type_name ` set lst = {t}" by (cases lst) auto
  then have s: "set (extract_unique_types lst) = {t}"
    by (simp add: set_extract_unique_types)
  have "distinct (extract_unique_types lst)"
    by (simp add: extract_unique_types_def)
  then have "length (extract_unique_types lst) = 1"
    using distinct_card [of "extract_unique_types lst"] s by simp
  then obtain y where "extract_unique_types lst = [y]"
    by (cases "extract_unique_types lst") auto
  with s show ?thesis by simp
qed

lemma extract_unique_types_single:
  assumes "lst \<noteq> []" and "\<not> 1 < length (extract_unique_types lst)"
  shows "\<forall>x\<in>set lst. type_name x = type_name (hd lst)"
proof -
  let ?S = "type_name ` set lst"
  from assms(2) have "card ?S \<le> Suc 0"
    by (simp add: length_extract_unique_types)
  moreover have "(card ?S \<le> Suc 0) = (\<forall>a\<in>?S. \<forall>b\<in>?S. a = b)"
    by (rule card_le_Suc0_iff_eq) simp
  ultimately have eq: "\<forall>a\<in>?S. \<forall>b\<in>?S. a = b" by blast
  from assms(1) have "type_name (hd lst) \<in> ?S" by simp
  with eq show ?thesis by blast
qed

lemma all_items_map_PDict: "all_items (map PDict ds) = Inr ds"
  by (induction ds) simp_all

lemma chain_from_iterable_map_PList: "chain_from_iterable (map PList xss) = Inr (concat xss)"
  by (induction xss) simp_all

lemma all_items_dicts:
  "\<forall>x\<in>set lst. type_name x = ''dict'' \<Longrightarrow> \<exists>ds. all_items lst = Inr ds"
proof (induction lst)
  case Nil
  show ?case by simp
next
  case (Cons x lst)
  then obtain kvs ds where "x = PDict kvs" and "all_items lst = Inr ds"
    using type_name_dict [of x] by auto
  then show ?case by simp
qed

lemma chain_from_iterable_lists:
  "\<forall>x\<in>set lst. type_name x = ''list'' \<Longrightarrow> \<exists>flat. chain_from_iterable lst = Inr flat"
proof (induction lst)
  case Nil
  show ?case by simp
next
  case (Cons x lst)
  then obtain xs flat where "x = PList xs" and "chain_from_iterable lst = Inr flat"
    using type_name_list [of x] by auto
  then show ?case by simp
qed

lemma infer_list_schema_hetero:
  assumes "1 < card (type_name ` set lst)"
  shows "infer_list_schema lst = Inr (SKinds (type_name ` set lst))"
proof -
  from assms have "lst \<noteq> []" by auto
  with assms show ?thesis
    by (simp add: infer_list_schema.simps [of lst] length_extract_unique_types
        set_extract_unique_types)
qed

lemma infer_list_schema_same:
  assumes "lst \<noteq> []" and "\<forall>x\<in>set lst. type_name x = t"
  shows "infer_list_schema lst =
    (if t = ''dict'' then
       (case all_items lst of
          Inl e \<Rightarrow> Inl e
        | Inr ds \<Rightarrow>
            (case infer_dict_schema (merge_nested_dicts ds) of
               Inl e \<Rightarrow> Inl e
             | Inr s \<Rightarrow> Inr (SArray [SObject s])))
     else if t = ''list'' then
       (case chain_from_iterable lst of
          Inl e \<Rightarrow> Inl e
        | Inr flat \<Rightarrow>
            (case infer_list_schema flat of
               Inl e \<Rightarrow> Inl e
             | Inr s \<Rightarrow> Inr (SArray [s])))
     else Inr (SArray [SKind t]))"
  using assms(1) extract_unique_types_same [OF assms]
  by (simp add: infer_list_schema.simps [of lst])

lemma infer_list_schema_dicts:
  assumes "ds \<noteq> []"
  shows "infer_list_schema (map PDict ds) =
    (case infer_dict_schema (merge_nested_dicts ds) of
       Inl e \<Rightarrow> Inl e
     | Inr s \<Rightarrow> Inr (SArray [SObject s]))"
  using assms infer_list_schema_same [of "map PDict ds" "''dict''"]
  by (simp add: all_items_map_PDict)

lemma infer_list_schema_lists:
  assumes "xss \<noteq> []"
  shows "infer_list_schema (map PList xss) =
    (case infer_list_schema (concat xss) of
       Inl e \<Rightarrow> Inl e
     | Inr s \<Rightarrow> Inr (SArray [s]))"
  using assms infer_list_schema_same [of "map PList xss" "''list''"]
  by (simp add: chain_from_iterable_map_PList)

lemma infer_total:
  "\<exists>s. infer_schema obj = Inr s"
  "\<exists>s. infer_list_schema lst = Inr s"
  "\<exists>s. infer_dict_schema kvs = Inr s"
proof (induction obj and lst and kvs rule: infer_schema_infer_list_schema_infer_dict_schema.induct)
  case (1 obj)
  show ?case
  proof (cases "isinstance_list obj")
    case True
    with 1(1) show ?thesis by (simp add: infer_schema.simps [of obj])
  next
    case nl: False
    show ?thesis
    proof (cases "isinstance_dict obj")
      case True
      from 1(2) [OF nl True] obtain r where "infer_dict_schema (dict_items obj) = Inr r" ..
      with nl True show ?thesis by (simp add: infer_schema.simps [of obj])
    next
      case False
      with nl show ?thesis by (simp add: infer_schema.simps [of obj])
    qed
  qed
next
  case (2 lst)
  show ?case
  proof (cases "lst = []")
    case True
    then show ?thesis by (simp add: infer_list_schema.simps [of "[]"])
  next
    case ne: False
    show ?thesis
    proof (cases "1 < length (extract_unique_types lst)")
      case True
      with ne show ?thesis by (simp add: infer_list_schema.simps [of lst])
    next
      case False
      let ?t = "type_name (hd lst)"
      note same = extract_unique_types_single [OF ne False]
      note ts = extract_unique_types_same [OF ne same]
      note eq = infer_list_schema_same [OF ne same]
      consider (d) "?t = ''dict''" | (l) "?t = ''list''" | (s) "?t \<noteq> ''dict''" "?t \<noteq> ''list''"
        by blast
      then show ?thesis
      proof cases
        case d
        with same obtain ds where ai: "all_items lst = Inr ds"
          using all_items_dicts [of lst] by auto
        from "2.IH"(1) [OF ne refl False ts d ai]
        obtain r where "infer_dict_schema (merge_nested_dicts ds) = Inr r" ..
        with d ai show ?thesis by (simp add: eq)
      next
        case l
        with same obtain flat where ch: "chain_from_iterable lst = Inr flat"
          using chain_from_iterable_lists [of lst] by auto
        from l have nd: "?t \<noteq> ''dict''" by simp
        from "2.IH"(2) [OF ne refl False ts nd l ch]
        obtain r where "infer_list_schema flat = Inr r" ..
        with l ch show ?thesis by (simp add: eq)
      next
        case s
        then show ?thesis by (simp add: eq)
      qed
    qed
  qed
next
  case 3
  show ?case by simp
next
  case (4 key val kvs)
  from 4(1) obtain s where s: "infer_schema val = Inr s" ..
  from 4(2) [OF s] obtain rest where "infer_dict_schema kvs = Inr rest" ..
  with s show ?case by simp
qed


lemma two_labels:
  assumes "x \<in> set lst" and "y \<in> set lst" and "type_name x \<noteq> type_name y"
  shows "1 < card (type_name ` set lst)"
proof -
  from assms(1,2) have "{type_name x, type_name y} \<subseteq> type_name ` set lst" by auto
  then have "card {type_name x, type_name y} \<le> card (type_name ` set lst)"
    by (intro card_mono) auto
  moreover from assms(3) have "card {type_name x, type_name y} = 2" by simp
  ultimately show ?thesis by simp
qed

lemma infer_schema_PList: "infer_schema (PList lst) = infer_list_schema lst"
  by (simp add: infer_schema.simps)


subsection \<open>Scalars\<close>

text \<open>
  Claim C8. A scalar is given the name of its dynamic type: \<open>bool\<close> for a
  boolean, \<open>int\<close> for an integer, \<open>float\<close> for a float, \<open>str\<close> for a string;
  integers and floats are told apart. \<^verbatim>\<open>None\<close> is given \<^verbatim>\<open>None\<close>.
\<close>

theorem infer_schema_scalar_kinds:
  "infer_schema (PBool b) = Inr (SKind ''bool'')
   \<and> infer_schema (PInt i) = Inr (SKind ''int'')
   \<and> infer_schema (PFloat r) = Inr (SKind ''float'')
   \<and> infer_schema (PStr s) = Inr (SKind ''str'')
   \<and> infer_schema PNone = Inr SNull"
  by (simp add: infer_schema.simps)

theorem infer_schema_scalar_kinds_witness:
  "infer_schema (PBool True) = Inr (SKind ''bool'')
   \<and> infer_schema (PInt 3) = Inr (SKind ''int'')
   \<and> infer_schema (PFloat 3.5) = Inr (SKind ''float'')
   \<and> infer_schema (PStr ''x'') = Inr (SKind ''str'')
   \<and> infer_schema PNone = Inr SNull"
  by (rule infer_schema_scalar_kinds)

subsection \<open>Lists\<close>

text \<open>
  Claim C5. A list whose elements have two or more distinct type names is
  given the set of those names, whatever the elements hold: the result is a
  function of the type names alone. For \<^verbatim>\<open>[1, "a"]\<close> it is \<open>{int, str}\<close>.
\<close>

theorem heterogeneous_list_kinds:
  assumes "x \<in> set lst" and "y \<in> set lst" and "type_name x \<noteq> type_name y"
  shows "infer_schema (PList lst) = Inr (SKinds (type_name ` set lst))"
  using two_labels [OF assms]
  by (simp add: infer_schema_PList infer_list_schema_hetero)

theorem heterogeneous_list_kinds_witness:
  "PInt 1 \<in> set [PInt 1, PStr ''a''] \<and> PStr ''a'' \<in> set [PInt 1, PStr ''a'']
   \<and> type_name (PInt 1) \<noteq> type_name (PStr ''a'')
   \<and> infer_schema (PList [PInt 1, PStr ''a'']) = Inr (SKinds {''int'', ''str''})"
  using heterogeneous_list_kinds [of "PInt 1" "[PInt 1, PStr ''a'']" "PStr ''a''"]
  by simp

text \<open>
  Claim C6. A non-empty list of lists is given a one-element list holding the
  schema of the concatenation of the inner lists, in order. For
  \<^verbatim>\<open>[[1, 2], [3]]\<close> it is \<^verbatim>\<open>[["int"]]\<close>.
\<close>

theorem nested_lists_flattened:
  assumes "xss \<noteq> []"
  shows "\<exists>s. infer_list_schema (concat xss) = Inr s
             \<and> infer_schema (PList (map PList xss)) = Inr (SArray [s])"
proof -
  obtain s where "infer_list_schema (concat xss) = Inr s"
    using infer_total(2) by blast
  with assms show ?thesis
    by (simp add: infer_schema_PList infer_list_schema_lists)
qed

theorem nested_lists_flattened_witness:
  "[[PInt 1, PInt 2], [PInt 3]] \<noteq> []
   \<and> infer_schema (PList [PList [PInt 1, PInt 2], PList [PInt 3]])
       = Inr (SArray [SArray [SKind ''int'']])"
proof -
  have "infer_list_schema [PInt 1, PInt 2, PInt 3] = Inr (SArray [SKind ''int''])"
    by (simp add: infer_list_schema_same [of _ "''int''"])
  with nested_lists_flattened [of "[[PInt 1, PInt 2], [PInt 3]]"]
  show ?thesis by simp
qed

text \<open>
  Claim C10. Inside a list, \<^verbatim>\<open>None\<close> counts with its type name \<open>NoneType\<close>: a
  non-empty list of \<^verbatim>\<open>None\<close>s is given \<^verbatim>\<open>["NoneType"]\<close>, not a list holding
  \<^verbatim>\<open>None\<close>, and a list with a \<^verbatim>\<open>None\<close> and an element of another type is
  given the set of type names, \<open>NoneType\<close> among them. For \<^verbatim>\<open>[1, None]\<close> it is
  \<open>{int, NoneType}\<close>.
\<close>

theorem nulls_in_lists:
  "(lst \<noteq> [] \<and> (\<forall>x\<in>set lst. x = PNone) \<longrightarrow>
      infer_schema (PList lst) = Inr (SArray [SKind ''NoneType'']))
   \<and> (PNone \<in> set lst \<and> y \<in> set lst \<and> type_name y \<noteq> ''NoneType'' \<longrightarrow>
      infer_schema (PList lst) = Inr (SKinds (type_name ` set lst))
      \<and> ''NoneType'' \<in> type_name ` set lst)"
proof (intro conjI impI)
  assume "lst \<noteq> [] \<and> (\<forall>x\<in>set lst. x = PNone)"
  then have "lst \<noteq> []" and "\<forall>x\<in>set lst. type_name x = ''NoneType''" by auto
  from infer_list_schema_same [OF this]
  show "infer_schema (PList lst) = Inr (SArray [SKind ''NoneType''])"
    by (simp add: infer_schema_PList)
next
  assume a: "PNone \<in> set lst \<and> y \<in> set lst \<and> type_name y \<noteq> ''NoneType''"
  then have "type_name PNone \<in> type_name ` set lst" by (intro imageI) simp
  then show "''NoneType'' \<in> type_name ` set lst" by simp
next
  assume a: "PNone \<in> set lst \<and> y \<in> set lst \<and> type_name y \<noteq> ''NoneType''"
  then have "1 < card (type_name ` set lst)"
    using two_labels [of PNone lst y] by auto
  then show "infer_schema (PList lst) = Inr (SKinds (type_name ` set lst))"
    by (simp add: infer_schema_PList infer_list_schema_hetero)
qed

theorem nulls_in_lists_witness:
  "infer_schema (PList [PNone, PNone]) = Inr (SArray [SKind ''NoneType''])
   \<and> infer_schema (PList [PInt 1, PNone]) = Inr (SKinds {''int'', ''NoneType''})"
  using nulls_in_lists [of "[PNone, PNone]" "PNone"]
    nulls_in_lists [of "[PInt 1, PNone]" "PInt 1"]
  by simp


section \<open>Properties of the merge\<close>

subsection \<open>Keys and stable entries\<close>

lemma map_of_merge_entry_other:
  "k \<noteq> key \<Longrightarrow> map_of (merge_entry merged k v) key = map_of merged key"
  by (simp add: merge_entry.simps update_conv' split: option.splits)

lemma keys_merge_entry:
  "fst ` set (merge_entry merged k v) = insert k (fst ` set merged)"
proof (cases "map_of merged k")
  case None
  then show ?thesis by (simp add: merge_entry.simps dom_update)
next
  case (Some old)
  then have "k \<in> fst ` set merged" by (metis map_of_eq_None_iff option.distinct(1))
  with Some show ?thesis by (auto simp: merge_entry.simps dom_update)
qed

lemma keys_merge_items:
  "fst ` set (merge_items merged kvs) = fst ` set merged \<union> fst ` set kvs"
proof (induction kvs arbitrary: merged)
  case Nil
  show ?case by simp
next
  case (Cons kv kvs)
  obtain k v where kv: "kv = (k, v)" by (cases kv)
  show ?case
    unfolding kv merge_items.simps Cons.IH keys_merge_entry by simp
qed

lemma keys_merge_dicts:
  "fst ` set (merge_dicts merged ds) = fst ` set merged \<union> (\<Union>d\<in>set ds. fst ` set d)"
proof (induction ds arbitrary: merged)
  case Nil
  show ?case by simp
next
  case (Cons d ds)
  show ?case
    unfolding merge_dicts.simps Cons.IH keys_merge_items by (simp add: Un_assoc)
qed

lemma keys_merge_nested_dicts:
  "fst ` set (merge_nested_dicts ds) = (\<Union>d\<in>set ds. fst ` set d)"
  by (simp add: merge_nested_dicts.simps keys_merge_dicts)

lemma keys_infer_dict_schema:
  "infer_dict_schema kvs = Inr s \<Longrightarrow> map fst s = map fst kvs"
  by (induction kvs arbitrary: s) (auto split: sum.splits)

lemma merge_entry_stable:
  assumes "map_of merged key = Some old"
    and "\<not> isinstance_dict old" and "\<not> isinstance_list old"
    and "k = key \<longrightarrow> old = PMixed \<or> \<not> isinstance_list v"
  shows "map_of (merge_entry merged k v) key = Some old"
proof (cases "k = key")
  case False
  with assms(1) show ?thesis by (simp add: map_of_merge_entry_other)
next
  case True
  with assms show ?thesis
    by (auto simp: merge_entry.simps update_conv')
qed

lemma merge_items_stable:
  assumes "map_of merged key = Some old"
    and "\<not> isinstance_dict old" and "\<not> isinstance_list old"
    and "old = PMixed \<or> (\<forall>(k, v)\<in>set kvs. k = key \<longrightarrow> \<not> isinstance_list v)"
  shows "map_of (merge_items merged kvs) key = Some old"
  using assms
proof (induction kvs arbitrary: merged)
  case Nil
  then show ?case by simp
next
  case (Cons kv kvs)
  obtain k v where kv: "kv = (k, v)" by (cases kv)
  from Cons.prems kv have "map_of (merge_entry merged k v) key = Some old"
    by (intro merge_entry_stable) auto
  with Cons.IH [of "merge_entry merged k v"] Cons.prems kv show ?case by auto
qed

lemma merge_dicts_stable:
  assumes "map_of merged key = Some old"
    and "\<not> isinstance_dict old" and "\<not> isinstance_list old"
    and "old = PMixed \<or> (\<forall>d\<in>set ds. \<forall>(k, v)\<in>set d. k = key \<longrightarrow> \<not> isinstance_list v)"
  shows "map_of (merge_dicts merged ds) key = Some old"
  using assms
proof (induction ds arbitrary: merged)
  case Nil
  then show ?case by simp
next
  case (Cons d ds)
  from Cons.prems have "map_of (merge_items merged d) key = Some old"
    by (intro merge_items_stable) auto
  with Cons.IH [of "merge_items merged d"] Cons.prems show ?case by auto
qed

lemma map_of_infer_dict_schema:
  "infer_dict_schema kvs = Inr s \<Longrightarrow> map_of kvs key = Some v \<Longrightarrow>
     \<exists>r. infer_schema v = Inr r \<and> map_of s key = Some r"
  by (induction kvs arbitrary: s) (auto split: sum.splits if_splits)

lemma infer_schema_PMixed: "infer_schema PMixed = Inr (SKind ''MixedType'')"
  by (simp add: infer_schema.simps)


subsection \<open>Colliding keys\<close>

text \<open>
  Claim C1, as stated: when the key is present and the existing and the new
  value are neither both dicts, nor both lists, nor exactly one of them a
  list, the new value replaces the existing one. It does not: merging
  \<^verbatim>\<open>[{"a": 1}, {"a": "x"}]\<close> leaves \<open>1\<close> under \<open>a\<close>, and a stored
  \<^verbatim>\<open>MixedType\<close> instance is not replaced by a later \<open>2\<close>.
\<close>

theorem last_write_wins_counterexample:
  "map_of [(''a'', PInt 1)] ''a'' = Some (PInt 1)
   \<and> \<not> (isinstance_dict (PInt 1) \<and> isinstance_dict (PStr ''x''))
   \<and> \<not> (isinstance_list (PInt 1) \<and> isinstance_list (PStr ''x''))
   \<and> isinstance_list (PInt 1) = isinstance_list (PStr ''x'')
   \<and> map_of (merge_entry [(''a'', PInt 1)] ''a'' (PStr ''x'')) ''a'' \<noteq> Some (PStr ''x'')
   \<and> map_of (merge_nested_dicts [[(''a'', PInt 1)], [(''a'', PStr ''x'')]]) ''a''
        \<noteq> Some (PStr ''x'')
   \<and> map_of (merge_entry [(''a'', PMixed)] ''a'' (PInt 2)) ''a'' \<noteq> Some (PInt 2)"
  by (simp add: merge_nested_dicts.simps merge_entry.simps)

text \<open>
  Claim C1, amended: when the key is present and the existing and the new
  value are neither both dicts, nor both lists, nor exactly one of them a
  list, the accumulator is left as it is: the existing value is kept and the
  new one dropped. So an existing value that is neither a dict nor a list
  stays under its key through the rest of the fold, as long as no later dict
  supplies a list for that key.
\<close>

theorem merge_keeps_existing_value:
  assumes "map_of merged key = Some old"
  shows "(\<not> (isinstance_dict old \<and> isinstance_dict val)
          \<and> \<not> (isinstance_list old \<and> isinstance_list val)
          \<and> isinstance_list old = isinstance_list val
          \<longrightarrow> merge_entry merged key val = merged)
       \<and> (\<not> isinstance_dict old \<and> \<not> isinstance_list old
          \<and> (\<forall>d\<in>set ds. \<forall>(k, v)\<in>set d. k = key \<longrightarrow> \<not> isinstance_list v)
          \<longrightarrow> map_of (merge_dicts merged ds) key = Some old)"
proof (intro conjI impI)
  assume "\<not> (isinstance_dict old \<and> isinstance_dict val)
          \<and> \<not> (isinstance_list old \<and> isinstance_list val)
          \<and> isinstance_list old = isinstance_list val"
  with assms show "merge_entry merged key val = merged"
    by (auto simp: merge_entry.simps)
next
  assume "\<not> isinstance_dict old \<and> \<not> isinstance_list old
          \<and> (\<forall>d\<in>set ds. \<forall>(k, v)\<in>set d. k = key \<longrightarrow> \<not> isinstance_list v)"
  with assms show "map_of (merge_dicts merged ds) key = Some old"
    by (intro merge_dicts_stable) auto
qed

theorem merge_keeps_existing_value_witness:
  "map_of [(''a'', PInt 1)] ''a'' = Some (PInt 1)
   \<and> merge_entry [(''a'', PInt 1)] ''a'' (PStr ''x'') = [(''a'', PInt 1)]
   \<and> map_of (merge_dicts [(''a'', PInt 1)] [[(''a'', PStr ''x'')], [(''a'', PBool True)]]) ''a''
       = Some (PInt 1)"
proof -
  have h: "map_of [(''a'', PInt 1)] ''a'' = Some (PInt 1)" by simp
  note t = merge_keeps_existing_value [OF h, of "PStr ''x''"
      "[[(''a'', PStr ''x'')], [(''a'', PBool True)]]"]
  from t have "merge_entry [(''a'', PInt 1)] ''a'' (PStr ''x'') = [(''a'', PInt 1)]"
    by simp
  moreover from t
  have "map_of (merge_dicts [(''a'', PInt 1)] [[(''a'', PStr ''x'')], [(''a'', PBool True)]]) ''a''
       = Some (PInt 1)"
    by (simp del: merge_dicts.simps)
  ultimately show ?thesis using h by (simp only:)
qed

text \<open>
  Claim C3. When the key is present and exactly one of the existing and the
  new value is a list, the entry becomes a \<^verbatim>\<open>MixedType\<close> instance. Once an
  entry is a \<^verbatim>\<open>MixedType\<close> instance it stays one through the rest of the fold,
  whatever the later dicts hold, and the schema of the merged dict has the type
  name \<open>MixedType\<close> under that key. For \<^verbatim>\<open>[{"a": [1]}, {"a": 2}]\<close> the schema
  is \<^verbatim>\<open>[{"a": "MixedType"}]\<close>.
\<close>

theorem list_mismatch_gives_mixed:
  "(map_of merged key = Some old \<and> isinstance_list old \<noteq> isinstance_list val
      \<longrightarrow> map_of (merge_entry merged key val) key = Some PMixed)
   \<and> (map_of merged key = Some PMixed
      \<longrightarrow> map_of (merge_dicts merged ds) key = Some PMixed
          \<and> (\<exists>s. infer_dict_schema (merge_dicts merged ds) = Inr s
                \<and> map_of s key = Some (SKind ''MixedType'')))
   \<and> infer_schema (PList [PDict [(''a'', PList [PInt 1])], PDict [(''a'', PInt 2)]])
       = Inr (SArray [SObject [(''a'', SKind ''MixedType'')]])"
proof (intro conjI impI)
  assume "map_of merged key = Some old \<and> isinstance_list old \<noteq> isinstance_list val"
  then show "map_of (merge_entry merged key val) key = Some PMixed"
    by (cases old; cases val) (auto simp: merge_entry.simps update_conv')
next
  assume m: "map_of merged key = Some PMixed"
  then show st: "map_of (merge_dicts merged ds) key = Some PMixed"
    by (intro merge_dicts_stable) auto
  obtain s where s: "infer_dict_schema (merge_dicts merged ds) = Inr s"
    using infer_total(3) by blast
  from map_of_infer_dict_schema [OF s st]
  have "map_of s key = Some (SKind ''MixedType'')"
    by (simp add: infer_schema_PMixed)
  with s show "\<exists>s. infer_dict_schema (merge_dicts merged ds) = Inr s
                \<and> map_of s key = Some (SKind ''MixedType'')"
    by blast
next
  show "infer_schema (PList [PDict [(''a'', PList [PInt 1])], PDict [(''a'', PInt 2)]])
       = Inr (SArray [SObject [(''a'', SKind ''MixedType'')]])"
    by (simp add: infer_schema_PList infer_list_schema_dicts [of "[_, _]", simplified]
        merge_nested_dicts.simps merge_entry.simps infer_schema_PMixed)
qed

theorem list_mismatch_gives_mixed_witness:
  "map_of (merge_entry [(''a'', PList [PInt 1])] ''a'' (PInt 2)) ''a'' = Some PMixed
   \<and> map_of (merge_entry [(''a'', PInt 2)] ''a'' (PList [PInt 1])) ''a'' = Some PMixed
   \<and> map_of (merge_dicts [(''a'', PMixed)] [[(''a'', PList [PInt 3])], [(''a'', PInt 4)]]) ''a''
       = Some PMixed"
proof -
  note t1 = list_mismatch_gives_mixed [of "[(''a'', PList [PInt 1])]" "''a''" "PList [PInt 1]"
      "PInt 2" "[]"]
  note t2 = list_mismatch_gives_mixed [of "[(''a'', PInt 2)]" "''a''" "PInt 2"
      "PList [PInt 1]" "[]"]
  note t3 = list_mismatch_gives_mixed [of "[(''a'', PMixed)]" "''a''" "PMixed" "PMixed"
      "[[(''a'', PList [PInt 3])], [(''a'', PInt 4)]]"]
  from t1 have 1: "map_of (merge_entry [(''a'', PList [PInt 1])] ''a'' (PInt 2)) ''a'' = Some PMixed"
    by simp
  from t2 have 2: "map_of (merge_entry [(''a'', PInt 2)] ''a'' (PList [PInt 1])) ''a'' = Some PMixed"
    by simp
  from t3 have 3: "map_of (merge_dicts [(''a'', PMixed)] [[(''a'', PList [PInt 3])], [(''a'', PInt 4)]]) ''a''
       = Some PMixed"
    by (simp del: merge_dicts.simps)
  from 1 2 3 show ?thesis by (simp only:)
qed

text \<open>
  Claim C7. When the key is present and both values are lists, the entry
  becomes the existing elements followed by the new ones, and the schema of the
  key is inferred from that one list: two sibling dicts with lists \<open>xs\<close> and
  \<open>ys\<close> under \<open>k\<close> give the schema of \<open>xs @ ys\<close> under \<open>k\<close>. For
  \<^verbatim>\<open>[{"a": [1]}, {"a": [2, 3]}]\<close> the merged list is \<^verbatim>\<open>[1, 2, 3]\<close> and the
  schema \<^verbatim>\<open>[{"a": ["int"]}]\<close>.
\<close>

theorem sibling_lists_concatenated:
  "(map_of merged key = Some old \<and> isinstance_list old \<and> isinstance_list val
      \<longrightarrow> map_of (merge_entry merged key val) key
            = Some (PList (list_elems old @ list_elems val)))
   \<and> merge_nested_dicts [[(k, PList xs)], [(k, PList ys)]] = [(k, PList (xs @ ys))]
   \<and> (\<exists>r. infer_list_schema (xs @ ys) = Inr r
          \<and> infer_schema (PList [PDict [(k, PList xs)], PDict [(k, PList ys)]])
              = Inr (SArray [SObject [(k, r)]]))"
proof (intro conjI impI)
  assume "map_of merged key = Some old \<and> isinstance_list old \<and> isinstance_list val"
  then show "map_of (merge_entry merged key val) key
            = Some (PList (list_elems old @ list_elems val))"
    by (cases old; cases val) (auto simp: merge_entry.simps update_conv')
next
  show m: "merge_nested_dicts [[(k, PList xs)], [(k, PList ys)]] = [(k, PList (xs @ ys))]"
    by (simp add: merge_nested_dicts.simps merge_entry.simps)
  obtain r where r: "infer_list_schema (xs @ ys) = Inr r"
    using infer_total(2) by blast
  then have "infer_dict_schema [(k, PList (xs @ ys))] = Inr [(k, r)]"
    by (simp add: infer_schema_PList)
  with m have "infer_schema (PList [PDict [(k, PList xs)], PDict [(k, PList ys)]])
              = Inr (SArray [SObject [(k, r)]])"
    by (simp add: infer_schema_PList infer_list_schema_dicts [of "[_, _]", simplified]
        del: infer_dict_schema.simps)
  with r show "\<exists>r. infer_list_schema (xs @ ys) = Inr r
          \<and> infer_schema (PList [PDict [(k, PList xs)], PDict [(k, PList ys)]])
              = Inr (SArray [SObject [(k, r)]])"
    by blast
qed

theorem sibling_lists_concatenated_witness:
  "map_of (merge_entry [(''a'', PList [PInt 1])] ''a'' (PList [PInt 2, PInt 3])) ''a''
     = Some (PList [PInt 1, PInt 2, PInt 3])
   \<and> merge_nested_dicts [[(''a'', PList [PInt 1])], [(''a'', PList [PInt 2, PInt 3])]]
     = [(''a'', PList [PInt 1, PInt 2, PInt 3])]
   \<and> infer_schema (PList [PDict [(''a'', PList [PInt 1])], PDict [(''a'', PList [PInt 2, PInt 3])]])
     = Inr (SArray [SObject [(''a'', SArray [SKind ''int''])]])"
proof -
  have "infer_list_schema [PInt 1, PInt 2, PInt 3] = Inr (SArray [SKind ''int''])"
    by (simp add: infer_list_schema_same [of _ "''int''"])
  with sibling_lists_concatenated [of "[(''a'', PList [PInt 1])]" "''a''" "PList [PInt 1]"
      "PList [PInt 2, PInt 3]" "''a''" "[PInt 1]" "[PInt 2, PInt 3]"]
  show ?thesis by simp
qed

text \<open>
  Claim C4. The schema of a non-empty list of dicts is a one-element list
  holding a dict schema whose keys are exactly the keys of all the dicts
  together. For \<^verbatim>\<open>[{"a": 1}, {"b": "x"}]\<close> it is
  \<^verbatim>\<open>[{"a": "int", "b": "str"}]\<close>.
\<close>

theorem merged_keys_are_union:
  assumes "ds \<noteq> []"
  shows "\<exists>obj. infer_schema (PList (map PDict ds)) = Inr (SArray [SObject obj])
           \<and> fst ` set obj = (\<Union>d\<in>set ds. fst ` set d)"
proof -
  obtain obj where obj: "infer_dict_schema (merge_nested_dicts ds) = Inr obj"
    using infer_total(3) by blast
  from keys_infer_dict_schema [OF obj]
  have "fst ` set obj = fst ` set (merge_nested_dicts ds)"
    by (metis set_map)
  with obj assms show ?thesis
    by (simp add: infer_schema_PList infer_list_schema_dicts keys_merge_nested_dicts)
qed

theorem merged_keys_are_union_witness:
  "[[(''a'', PInt 1)], [(''b'', PStr ''x'')]] \<noteq> []
   \<and> (\<exists>obj. infer_schema (PList [PDict [(''a'', PInt 1)], PDict [(''b'', PStr ''x'')]])
               = Inr (SArray [SObject obj])
             \<and> fst ` set obj = {''a'', ''b''})
   \<and> infer_schema (PList [PDict [(''a'', PInt 1)], PDict [(''b'', PStr ''x'')]])
       = Inr (SArray [SObject [(''a'', SKind ''int''), (''b'', SKind ''str'')]])"
proof -
  have "infer_schema (PList [PDict [(''a'', PInt 1)], PDict [(''b'', PStr ''x'')]])
       = Inr (SArray [SObject [(''a'', SKind ''int''), (''b'', SKind ''str'')]])"
    by (simp add: infer_schema_PList infer_list_schema_dicts [of "[_, _]", simplified]
        merge_nested_dicts.simps merge_entry.simps infer_schema.simps)
  with merged_keys_are_union [of "[[(''a'', PInt 1)], [(''b'', PStr ''x'')]]"]
  show ?thesis by simp
qed


section \<open>The call stack\<close>

text \<open>
  The interpreter bounds the depth of its call stack
  (\<^verbatim>\<open>sys.getrecursionlimit()\<close>, 1000 unless the caller changed it) and raises
  \<^verbatim>\<open>RecursionError\<close> at a call that would exceed the bound. The program has no
  bound of its own on the depth of its calls: \<^verbatim>\<open>infer_schema\<close> calls
  \<^verbatim>\<open>infer_list_schema\<close> and \<^verbatim>\<open>infer_dict_schema\<close>, which call \<^verbatim>\<open>infer_schema\<close>,
  \<^verbatim>\<open>infer_list_schema\<close> and \<^verbatim>\<open>merge_nested_dicts\<close>, which calls itself, once for
  every level of nesting of the value; and \<^verbatim>\<open>generate_schema\<close> calls
  \<^verbatim>\<open>infer_schema\<close> outside its two \<^verbatim>\<open>try\<close> blocks.

  The functions \<open>lim_...\<close> are the functions of the sections above with one
  more argument: the number of frames the interpreter still allows at the
  call. With no frame left, the call raises. Otherwise the body runs with one
  frame less. What takes a frame:
  \<^item> a call of a function of the program, for as long as it runs;
  \<^item> the body of the generator expression in \<^verbatim>\<open>extract_unique_types\<close>, which
    runs while \<^verbatim>\<open>set\<close> consumes it;
  \<^item> the body of the dict comprehension in \<^verbatim>\<open>infer_dict_schema\<close>: \<open>c\<close> frames,
    where \<open>c\<close> is 1 for an interpreter that runs a comprehension as a function
    of its own (CPython up to 3.11) and 0 for one that runs it in the frame
    of the enclosing function (CPython from 3.12).

  A call of a built-in (\<^verbatim>\<open>isinstance\<close>, \<^verbatim>\<open>len\<close>, \<^verbatim>\<open>list\<close>, ...) returns before the
  next call of a function of the program and is not counted: the frames are
  those of Python code. An interpreter that counts a built-in while it runs
  needs that much more at the deepest call.
\<close>

subsection \<open>The functions with a bound on the depth of calls\<close>

text \<open>
  \<^verbatim>\<open>extract_unique_types\<close> needs its own frame and the frame of the generator
  expression.
\<close>

fun lim_extract_unique_types :: "nat \<Rightarrow> pyval list \<Rightarrow> error + string list" where
  "lim_extract_unique_types 0 lst = Inl RecursionError"
| "lim_extract_unique_types (Suc 0) lst = Inl RecursionError"
| "lim_extract_unique_types (Suc (Suc n)) lst = Inr (extract_unique_types lst)"

text \<open>
  \<^verbatim>\<open>merge_nested_dicts\<close>: the two loops and the loop body run in the frame of
  the call; the recursive call \<^verbatim>\<open>merge_nested_dicts([merged[key], value])\<close>
  needs the next frame.
\<close>

function lim_merge_nested_dicts :: "nat \<Rightarrow> pydict list \<Rightarrow> error + pydict"
  and lim_merge_dicts :: "nat \<Rightarrow> pydict \<Rightarrow> pydict list \<Rightarrow> error + pydict"
  and lim_merge_items :: "nat \<Rightarrow> pydict \<Rightarrow> pydict \<Rightarrow> error + pydict"
  and lim_merge_entry :: "nat \<Rightarrow> pydict \<Rightarrow> string \<Rightarrow> pyval \<Rightarrow> error + pydict"
where
  "lim_merge_nested_dicts 0 dict_list = Inl RecursionError"
| "lim_merge_nested_dicts (Suc n) dict_list = lim_merge_dicts n [] dict_list"
| "lim_merge_dicts n merged [] = Inr merged"
| "lim_merge_dicts n merged (d # ds) =
     (case lim_merge_items n merged d of
        Inl e \<Rightarrow> Inl e
      | Inr merged' \<Rightarrow> lim_merge_dicts n merged' ds)"
| "lim_merge_items n merged [] = Inr merged"
| "lim_merge_items n merged ((key, val) # kvs) =
     (case lim_merge_entry n merged key val of
        Inl e \<Rightarrow> Inl e
      | Inr merged' \<Rightarrow> lim_merge_items n merged' kvs)"
| "lim_merge_entry n merged key val =
     (case map_of merged key of
        Some old \<Rightarrow>
          if isinstance_dict old \<and> isinstance_dict val then
            (case lim_merge_nested_dicts n [dict_items old, dict_items val] of
               Inl e \<Rightarrow> Inl e
             | Inr m \<Rightarrow> Inr (AList.update key (PDict m) merged))
          else if isinstance_list old \<and> isinstance_list val then
            Inr (AList.update key (PList (list_elems old @ list_elems val)) merged)
          else if isinstance_list old \<noteq> isinstance_list val then
            Inr (AList.update key PMixed merged)
          else Inr merged
      | None \<Rightarrow> Inr (AList.update key val merged))"
  by pat_completeness auto

termination
  by (relation "measures
    [\<lambda>x. case x of
        Inl (Inl (n, dl)) \<Rightarrow> 2 * n
      | Inl (Inr (n, m, ds)) \<Rightarrow> 2 * n + 1
      | Inr (Inl (n, m, kvs)) \<Rightarrow> 2 * n + 1
      | Inr (Inr (n, m, key, val)) \<Rightarrow> 2 * n + 1,
     \<lambda>x. case x of
        Inl (Inl (n, dl)) \<Rightarrow> 0
      | Inl (Inr (n, m, ds)) \<Rightarrow> 2
      | Inr (Inl (n, m, kvs)) \<Rightarrow> 1
      | Inr (Inr (n, m, key, val)) \<Rightarrow> 0,
     \<lambda>x. case x of
        Inl (Inl (n, dl)) \<Rightarrow> 0
      | Inl (Inr (n, m, ds)) \<Rightarrow> length ds
      | Inr (Inl (n, m, kvs)) \<Rightarrow> length kvs
      | Inr (Inr (n, m, key, val)) \<Rightarrow> 0]") auto

text \<open>
  \<^verbatim>\<open>infer_schema\<close>, \<^verbatim>\<open>infer_list_schema\<close> and \<^verbatim>\<open>infer_dict_schema\<close>.
  \<open>lim_infer_items\<close> is the body of the dict comprehension: it takes \<open>c\<close> of
  the frames left to \<^verbatim>\<open>infer_dict_schema\<close> and calls \<^verbatim>\<open>infer_schema\<close> for every
  item, each time from the same depth.
\<close>

function lim_infer_schema :: "nat \<Rightarrow> nat \<Rightarrow> pyval \<Rightarrow> error + schema"
  and lim_infer_list_schema :: "nat \<Rightarrow> nat \<Rightarrow> pyval list \<Rightarrow> error + schema"
  and lim_infer_dict_schema :: "nat \<Rightarrow> nat \<Rightarrow> pydict \<Rightarrow> error + (string \<times> schema) list"
  and lim_infer_items :: "nat \<Rightarrow> nat \<Rightarrow> pydict \<Rightarrow> error + (string \<times> schema) list"
where
  "lim_infer_schema c 0 obj = Inl RecursionError"
| "lim_infer_schema c (Suc n) obj =
     (if isinstance_list obj then lim_infer_list_schema c n (list_elems obj)
      else if isinstance_dict obj then
        (case lim_infer_dict_schema c n (dict_items obj) of
           Inl e \<Rightarrow> Inl e
         | Inr s \<Rightarrow> Inr (SObject s))
      else if obj = PNone then Inr SNull
      else Inr (SKind (type_name obj)))"
| "lim_infer_list_schema c 0 lst = Inl RecursionError"
| "lim_infer_list_schema c (Suc n) lst =
     (if lst \<noteq> [] then
        (case lim_extract_unique_types n lst of
           Inl e \<Rightarrow> Inl e
         | Inr types \<Rightarrow>
             if length types > 1 then Inr (SKinds (set types))
             else
               (case types of
                  [] \<Rightarrow> Inl IndexError
                | t0 # ts \<Rightarrow>
                    if t0 = ''dict'' then
                      (case all_items lst of
                         Inl e \<Rightarrow> Inl e
                       | Inr ds \<Rightarrow>
                           (case lim_merge_nested_dicts n ds of
                              Inl e \<Rightarrow> Inl e
                            | Inr merged \<Rightarrow>
                                (case lim_infer_dict_schema c n merged of
                                   Inl e \<Rightarrow> Inl e
                                 | Inr s \<Rightarrow> Inr (SArray [SObject s]))))
                    else if t0 = ''list'' then
                      (case chain_from_iterable lst of
                         Inl e \<Rightarrow> Inl e
                       | Inr flat \<Rightarrow>
                           (case lim_infer_list_schema c n flat of
                              Inl e \<Rightarrow> Inl e
                            | Inr s \<Rightarrow> Inr (SArray [s])))
                    else Inr (SArray [SKind t0])))
      else Inr (SArray []))"
| "lim_infer_dict_schema c 0 data = Inl RecursionError"
| "lim_infer_dict_schema c (Suc n) data =
     (if n < c then Inl RecursionError else lim_infer_items c (n - c) data)"
| "lim_infer_items c n [] = Inr []"
| "lim_infer_items c n ((key, val) # kvs) =
     (case lim_infer_schema c n val of
        Inl e \<Rightarrow> Inl e
      | Inr s \<Rightarrow>
          (case lim_infer_items c n kvs of
             Inl e \<Rightarrow> Inl e
           | Inr rest \<Rightarrow> Inr ((key, s) # rest)))"
  by pat_completeness auto

termination
  by (relation "measures
    [\<lambda>x. case x of
        Inl (Inl (c, n, obj)) \<Rightarrow> 2 * n
      | Inl (Inr (c, n, lst)) \<Rightarrow> 2 * n
      | Inr (Inl (c, n, data)) \<Rightarrow> 2 * n
      | Inr (Inr (c, n, kvs)) \<Rightarrow> 2 * n + 1,
     \<lambda>x. case x of
        Inl (Inl (c, n, obj)) \<Rightarrow> 0
      | Inl (Inr (c, n, lst)) \<Rightarrow> 0
      | Inr (Inl (c, n, data)) \<Rightarrow> 0
      | Inr (Inr (c, n, kvs)) \<Rightarrow> length kvs]") auto

declare lim_merge_entry.simps [simp del]
  lim_infer_schema.simps [simp del] lim_infer_list_schema.simps [simp del]
  lim_infer_dict_schema.simps [simp del]


subsection \<open>The nesting depth of a value\<close>

text \<open>
  The number of lists and dicts around the most deeply nested scalar: a
  scalar has depth 0, \<^verbatim>\<open>[]\<close> and \<^verbatim>\<open>{}\<close> have depth 1.
\<close>

fun height :: "pyval \<Rightarrow> nat"
  and lheight :: "pyval list \<Rightarrow> nat"
  and dheight :: "pydict \<Rightarrow> nat"
where
  "height PNone = 0"
| "height (PBool b) = 0"
| "height (PInt i) = 0"
| "height (PFloat r) = 0"
| "height (PStr s) = 0"
| "height PMixed = 0"
| "height (PList xs) = Suc (lheight xs)"
| "height (PDict kvs) = Suc (dheight kvs)"
| "lheight [] = 0"
| "lheight (x # xs) = max (height x) (lheight xs)"
| "dheight [] = 0"
| "dheight ((k, v) # kvs) = max (height v) (dheight kvs)"

text \<open>
  \<^verbatim>\<open>1\<close>, \<^verbatim>\<open>{"a": 1}\<close>, \<^verbatim>\<open>{"a": {"a": 1}}\<close>, ...: \<open>k\<close> dicts around \<^verbatim>\<open>1\<close>.
\<close>

fun nested_dicts :: "nat \<Rightarrow> pyval" where
  "nested_dicts 0 = PInt 1"
| "nested_dicts (Suc k) = PDict [(''a'', nested_dicts k)]"

lemma lheight_append: "lheight (xs @ ys) = max (lheight xs) (lheight ys)"
  by (induction xs) auto

lemma height_lookup: "map_of M key = Some old \<Longrightarrow> height old \<le> dheight M"
  by (induction M) (auto split: if_splits)

lemma dheight_update_le:
  "height v \<le> n \<Longrightarrow> dheight M \<le> n \<Longrightarrow> dheight (AList.update key v M) \<le> n"
  by (induction M) auto

lemma height_dict_items: "isinstance_dict v \<Longrightarrow> height v = Suc (dheight (dict_items v))"
  by (cases v) simp_all

lemma height_list_elems: "isinstance_list v \<Longrightarrow> height v = Suc (lheight (list_elems v))"
  by (cases v) simp_all

lemma dheight_merge:
  "\<forall>n. (\<forall>d\<in>set dl. dheight d \<le> n) \<longrightarrow> dheight (merge_nested_dicts dl) \<le> n"
  "\<forall>n. dheight M \<le> n \<and> (\<forall>d\<in>set ds. dheight d \<le> n) \<longrightarrow> dheight (merge_dicts M ds) \<le> n"
  "\<forall>n. dheight M' \<le> n \<and> dheight kvs \<le> n \<longrightarrow> dheight (merge_items M' kvs) \<le> n"
  "\<forall>n. dheight M'' \<le> n \<and> height v \<le> n \<longrightarrow> dheight (merge_entry M'' key v) \<le> n"
proof (induct dl and M ds and M' kvs and M'' key v
    rule: merge_nested_dicts_merge_dicts_merge_items_merge_entry.induct)
  case (1 dict_list)
  then show ?case by (simp add: merge_nested_dicts.simps)
next
  case (2 merged)
  show ?case by simp
next
  case (3 merged d ds)
  then show ?case by simp
next
  case (4 merged)
  show ?case by simp
next
  case (5 merged key val kvs)
  then show ?case by simp
next
  case (6 merged key val)
  show ?case
  proof (intro allI impI)
    fix n
    assume a: "dheight merged \<le> n \<and> height val \<le> n"
    note eq = merge_entry.simps [of merged key val]
    show "dheight (merge_entry merged key val) \<le> n"
    proof (cases "map_of merged key")
      case None
      with a show ?thesis by (simp add: eq dheight_update_le)
    next
      case (Some old)
      from height_lookup [OF Some] a have ho: "height old \<le> n" by simp
      consider (dicts) "isinstance_dict old \<and> isinstance_dict val"
        | (lists) "\<not> (isinstance_dict old \<and> isinstance_dict val)"
            "isinstance_list old \<and> isinstance_list val"
        | (mixed) "\<not> (isinstance_dict old \<and> isinstance_dict val)"
            "\<not> (isinstance_list old \<and> isinstance_list val)"
            "isinstance_list old \<noteq> isinstance_list val"
        | (keep) "\<not> (isinstance_dict old \<and> isinstance_dict val)"
            "\<not> (isinstance_list old \<and> isinstance_list val)"
            "isinstance_list old = isinstance_list val"
        by blast
      then show ?thesis
      proof cases
        case dicts
        let ?m = "merge_nested_dicts [dict_items old, dict_items val]"
        from dicts ho obtain n' where n: "n = Suc n'"
          by (cases n) (simp_all add: height_dict_items)
        from dicts ho a n have "dheight (dict_items old) \<le> n'" "dheight (dict_items val) \<le> n'"
          by (simp_all add: height_dict_items)
        with 6 [OF Some dicts] have "dheight ?m \<le> n'" by simp
        with n have "height (PDict ?m) \<le> n" by simp
        with a have "dheight (AList.update key (PDict ?m) merged) \<le> n"
          by (intro dheight_update_le) simp_all
        with dicts Some show ?thesis by (simp add: eq)
      next
        case lists
        let ?l = "PList (list_elems old @ list_elems val)"
        from lists ho a have "height ?l \<le> n"
          by (auto simp: height_list_elems lheight_append)
        with a have "dheight (AList.update key ?l merged) \<le> n"
          by (intro dheight_update_le) simp_all
        with lists Some show ?thesis by (auto simp: eq)
      next
        case mixed
        from a have "dheight (AList.update key PMixed merged) \<le> n"
          by (intro dheight_update_le) simp_all
        with mixed Some show ?thesis by (auto simp: eq)
      next
        case keep
        with Some a show ?thesis by (auto simp: eq)
      qed
    qed
  qed
qed

lemma all_items_height:
  "all_items lst = Inr ds \<Longrightarrow> \<forall>d\<in>set ds. dheight d < lheight lst"
proof (induction lst arbitrary: ds)
  case Nil
  then show ?case by simp
next
  case (Cons v lst)
  then show ?case
    by (cases v) (auto split: sum.splits simp: less_Suc_eq_le max.coboundedI2 less_max_iff_disj)
qed

lemma chain_height:
  "chain_from_iterable lst = Inr flat \<Longrightarrow> lst \<noteq> [] \<Longrightarrow> lheight flat < lheight lst"
proof (induction lst arbitrary: flat)
  case Nil
  then show ?case by simp
next
  case (Cons v lst)
  from Cons.prems(1) obtain ys flat' where v: "v = PList ys"
    and c: "chain_from_iterable lst = Inr flat'" and flat: "flat = ys @ flat'"
    by (cases v) (auto split: sum.splits)
  show ?case
  proof (cases "lst = []")
    case True
    with c have "flat' = []" by simp
    with v flat True show ?thesis by simp
  next
    case False
    from Cons.IH [OF c False] have "lheight flat' < lheight lst" .
    with v flat show ?thesis by (auto simp: lheight_append)
  qed
qed


subsection \<open>Enough frames give the result of the functions without a bound\<close>

lemma lim_merge_enough:
  "\<forall>n. 0 < n \<and> (\<forall>d\<in>set dl. dheight d < n) \<longrightarrow>
     lim_merge_nested_dicts n dl = Inr (merge_nested_dicts dl)"
  "\<forall>n. dheight M \<le> n \<and> (\<forall>d\<in>set ds. dheight d \<le> n) \<longrightarrow>
     lim_merge_dicts n M ds = Inr (merge_dicts M ds)"
  "\<forall>n. dheight M' \<le> n \<and> dheight kvs \<le> n \<longrightarrow>
     lim_merge_items n M' kvs = Inr (merge_items M' kvs)"
  "\<forall>n. dheight M'' \<le> n \<and> height v \<le> n \<longrightarrow>
     lim_merge_entry n M'' key v = Inr (merge_entry M'' key v)"
proof (induct dl and M ds and M' kvs and M'' key v
    rule: merge_nested_dicts_merge_dicts_merge_items_merge_entry.induct)
  case (1 dict_list)
  show ?case
  proof (intro allI impI)
    fix n
    assume a: "0 < n \<and> (\<forall>d\<in>set dict_list. dheight d < n)"
    then obtain m where n: "n = Suc m" by (cases n) auto
    with a have "dheight [] \<le> m \<and> (\<forall>d\<in>set dict_list. dheight d \<le> m)" by auto
    with 1 have "lim_merge_dicts m [] dict_list = Inr (merge_dicts [] dict_list)" by blast
    with n show "lim_merge_nested_dicts n dict_list = Inr (merge_nested_dicts dict_list)"
      by (simp add: merge_nested_dicts.simps)
  qed
next
  case (2 merged)
  show ?case by simp
next
  case (3 merged d ds)
  show ?case
  proof (intro allI impI)
    fix n
    assume a: "dheight merged \<le> n \<and> (\<forall>x\<in>set (d # ds). dheight x \<le> n)"
    then have 1: "dheight merged \<le> n \<and> dheight d \<le> n" by simp
    with 3(1) have i: "lim_merge_items n merged d = Inr (merge_items merged d)" by blast
    from 1 dheight_merge(3) have "dheight (merge_items merged d) \<le> n" by blast
    with a have "dheight (merge_items merged d) \<le> n \<and> (\<forall>x\<in>set ds. dheight x \<le> n)" by simp
    with 3(2) have "lim_merge_dicts n (merge_items merged d) ds
        = Inr (merge_dicts (merge_items merged d) ds)" by blast
    with i show "lim_merge_dicts n merged (d # ds) = Inr (merge_dicts merged (d # ds))"
      by simp
  qed
next
  case (4 merged)
  show ?case by simp
next
  case (5 merged key val kvs)
  show ?case
  proof (intro allI impI)
    fix n
    assume a: "dheight merged \<le> n \<and> dheight ((key, val) # kvs) \<le> n"
    then have 1: "dheight merged \<le> n \<and> height val \<le> n" by simp
    with 5(1) have e: "lim_merge_entry n merged key val = Inr (merge_entry merged key val)"
      by blast
    from 1 dheight_merge(4) have "dheight (merge_entry merged key val) \<le> n" by blast
    with a have "dheight (merge_entry merged key val) \<le> n \<and> dheight kvs \<le> n" by simp
    with 5(2) have "lim_merge_items n (merge_entry merged key val) kvs
        = Inr (merge_items (merge_entry merged key val) kvs)" by blast
    with e show "lim_merge_items n merged ((key, val) # kvs)
        = Inr (merge_items merged ((key, val) # kvs))"
      by simp
  qed
next
  case (6 merged key val)
  show ?case
  proof (intro allI impI)
    fix n
    assume a: "dheight merged \<le> n \<and> height val \<le> n"
    note eq = merge_entry.simps [of merged key val]
    note leq = lim_merge_entry.simps [of n merged key val]
    show "lim_merge_entry n merged key val = Inr (merge_entry merged key val)"
    proof (cases "map_of merged key")
      case None
      then show ?thesis by (simp add: eq leq)
    next
      case (Some old)
      from height_lookup [OF Some] a have ho: "height old \<le> n" by simp
      show ?thesis
      proof (cases "isinstance_dict old \<and> isinstance_dict val")
        case True
        from True ho a have "0 < n \<and> (\<forall>d\<in>set [dict_items old, dict_items val]. dheight d < n)"
          by (simp add: height_dict_items)
        with 6 [OF Some True]
        have "lim_merge_nested_dicts n [dict_items old, dict_items val]
            = Inr (merge_nested_dicts [dict_items old, dict_items val])" by blast
        with True Some show ?thesis by (simp add: eq leq)
      next
        case False
        with Some show ?thesis by (auto simp: eq leq)
      qed
    qed
  qed
qed

lemma lim_extract_enough:
  assumes "2 \<le> n"
  shows "lim_extract_unique_types n lst = Inr (extract_unique_types lst)"
proof -
  from assms obtain m where "n = Suc (Suc m)" by (cases n; cases "n - 1") auto
  then show ?thesis by simp
qed

lemma lim_infer_dict_enough:
  assumes "(2 + c) * dheight kvs + 3 + c \<le> n"
    and "\<And>p. (2 + c) * dheight kvs + 2 \<le> p \<Longrightarrow> lim_infer_items c p kvs = infer_dict_schema kvs"
  shows "lim_infer_dict_schema c n kvs = infer_dict_schema kvs"
proof -
  from assms(1) obtain m where n: "n = Suc m" and m: "(2 + c) * dheight kvs + 2 + c \<le> m"
    by (cases n) auto
  then have "\<not> m < c" and "(2 + c) * dheight kvs + 2 \<le> m - c" by simp_all
  with assms(2) [of "m - c"] n show ?thesis by (simp add: lim_infer_dict_schema.simps)
qed

lemma lim_infer_enough:
  "\<forall>n. (2 + c) * height obj + 2 \<le> n \<longrightarrow> lim_infer_schema c n obj = infer_schema obj"
  "\<forall>n. (2 + c) * lheight lst + 3 \<le> n \<longrightarrow> lim_infer_list_schema c n lst = infer_list_schema lst"
  "\<forall>n. (2 + c) * dheight kvs + 2 \<le> n \<longrightarrow> lim_infer_items c n kvs = infer_dict_schema kvs"
proof (induct obj and lst and kvs rule: infer_schema_infer_list_schema_infer_dict_schema.induct)
  case (1 obj)
  show ?case
  proof (intro allI impI)
    fix n
    assume a: "(2 + c) * height obj + 2 \<le> n"
    then obtain m where n: "n = Suc m" by (cases n) auto
    note eq = infer_schema.simps [of obj] and leq = lim_infer_schema.simps(2) [of c m obj]
    show "lim_infer_schema c n obj = infer_schema obj"
    proof (cases "isinstance_list obj")
      case True
      with a n have "(2 + c) * lheight (list_elems obj) + 3 \<le> m"
        by (simp add: height_list_elems)
      with 1(1) [OF True] have "lim_infer_list_schema c m (list_elems obj)
          = infer_list_schema (list_elems obj)" by blast
      with True n show ?thesis by (simp add: eq leq)
    next
      case nl: False
      show ?thesis
      proof (cases "isinstance_dict obj")
        case True
        with a n have m: "(2 + c) * dheight (dict_items obj) + 3 + c \<le> m"
          by (simp add: height_dict_items)
        have "lim_infer_dict_schema c m (dict_items obj) = infer_dict_schema (dict_items obj)"
          using m 1(2) [OF nl True] by (intro lim_infer_dict_enough) blast+
        with nl True n show ?thesis by (simp add: eq leq)
      next
        case False
        with nl n show ?thesis by (simp add: eq leq)
      qed
    qed
  qed
next
  case (2 lst)
  show ?case
  proof (intro allI impI)
    fix n
    assume a: "(2 + c) * lheight lst + 3 \<le> n"
    then obtain m where n: "n = Suc m" and m: "(2 + c) * lheight lst + 2 \<le> m"
      by (cases n) auto
    note leq = lim_infer_list_schema.simps(2) [of c m lst]
    from m have ex: "lim_extract_unique_types m lst = Inr (extract_unique_types lst)"
      by (intro lim_extract_enough) simp
    show "lim_infer_list_schema c n lst = infer_list_schema lst"
    proof (cases "lst = []")
      case True
      with n show ?thesis by (simp add: lim_infer_list_schema.simps infer_list_schema.simps)
    next
      case ne: False
      show ?thesis
      proof (cases "1 < length (extract_unique_types lst)")
        case True
        with ne n ex show ?thesis by (simp add: leq infer_list_schema.simps [of lst])
      next
        case False
        let ?t = "type_name (hd lst)"
        note same = extract_unique_types_single [OF ne False]
        note ts = extract_unique_types_same [OF ne same]
        note eq = infer_list_schema_same [OF ne same]
        consider (d) "?t = ''dict''" | (l) "?t \<noteq> ''dict''" "?t = ''list''"
          | (s) "?t \<noteq> ''dict''" "?t \<noteq> ''list''"
          by blast
        then show ?thesis
        proof cases
          case d
          with same obtain ds where ai: "all_items lst = Inr ds"
            using all_items_dicts [of lst] by auto
          note hd = all_items_height [OF ai]
          from ai ne have "ds \<noteq> []" by (cases lst) (auto split: option.splits sum.splits)
          then obtain d0 where "d0 \<in> set ds" by (cases ds) auto
          with hd obtain j where j: "lheight lst = Suc j" by (cases "lheight lst") auto
          from hd m have "0 < m \<and> (\<forall>d\<in>set ds. dheight d < m)" by auto
          with lim_merge_enough(1)
          have mg: "lim_merge_nested_dicts m ds = Inr (merge_nested_dicts ds)" by blast
          from hd j have "\<forall>d\<in>set ds. dheight d \<le> j" by auto
          with dheight_merge(1) have "dheight (merge_nested_dicts ds) \<le> j" by blast
          then have "(2 + c) * dheight (merge_nested_dicts ds) \<le> (2 + c) * j"
            by (rule mult_le_mono2)
          with m j have hm: "(2 + c) * dheight (merge_nested_dicts ds) + 3 + c \<le> m" by simp
          have "lim_infer_dict_schema c m (merge_nested_dicts ds)
              = infer_dict_schema (merge_nested_dicts ds)"
            using hm "2.hyps"(1) [OF ne refl False ts d ai]
            by (intro lim_infer_dict_enough) blast+
          with mg ai d ne n ex ts show ?thesis by (simp add: leq eq)
        next
          case l
          with same obtain flat where ch: "chain_from_iterable lst = Inr flat"
            using chain_from_iterable_lists [of lst] by auto
          from chain_height [OF ch ne] obtain j where j: "lheight lst = Suc j"
            and fj: "lheight flat \<le> j" by (cases "lheight lst") auto
          from fj have "(2 + c) * lheight flat \<le> (2 + c) * j" by (rule mult_le_mono2)
          with m j have "(2 + c) * lheight flat + 3 \<le> m" by simp
          with "2.hyps"(2) [OF ne refl False ts l(1) l(2) ch]
          have "lim_infer_list_schema c m flat = infer_list_schema flat" by blast
          with ch l ne n ex ts show ?thesis by (simp add: leq eq)
        next
          case s
          with ne n ex ts show ?thesis by (simp add: leq eq)
        qed
      qed
    qed
  qed
next
  case 3
  show ?case by simp
next
  case (4 key val kvs)
  show ?case
  proof (intro allI impI)
    fix n
    assume a: "(2 + c) * dheight ((key, val) # kvs) + 2 \<le> n"
    have "(2 + c) * height val \<le> (2 + c) * dheight ((key, val) # kvs)"
      and "(2 + c) * dheight kvs \<le> (2 + c) * dheight ((key, val) # kvs)"
      by (rule mult_le_mono2, simp)+
    with a have "(2 + c) * height val + 2 \<le> n" and k: "(2 + c) * dheight kvs + 2 \<le> n"
      by linarith+
    with 4(1) have v: "lim_infer_schema c n val = infer_schema val" by blast
    obtain s where s: "infer_schema val = Inr s" using infer_total(1) by blast
    from 4(2) [OF s] k have "lim_infer_items c n kvs = infer_dict_schema kvs" by blast
    with v s show "lim_infer_items c n ((key, val) # kvs) = infer_dict_schema ((key, val) # kvs)"
      by simp
  qed
qed


subsection \<open>No other exception\<close>

lemma lim_merge_only_depth:
  "lim_merge_nested_dicts n dl = Inr (merge_nested_dicts dl)
   \<or> lim_merge_nested_dicts n dl = Inl RecursionError"
  "lim_merge_dicts n1 M ds = Inr (merge_dicts M ds)
   \<or> lim_merge_dicts n1 M ds = Inl RecursionError"
  "lim_merge_items n2 M' kvs = Inr (merge_items M' kvs)
   \<or> lim_merge_items n2 M' kvs = Inl RecursionError"
  "lim_merge_entry n3 M'' key v = Inr (merge_entry M'' key v)
   \<or> lim_merge_entry n3 M'' key v = Inl RecursionError"
proof (induct n dl and n1 M ds and n2 M' kvs and n3 M'' key v
    rule: lim_merge_nested_dicts_lim_merge_dicts_lim_merge_items_lim_merge_entry.induct)
  case (1 dict_list)
  show ?case by simp
next
  case (2 n dict_list)
  then show ?case by (simp add: merge_nested_dicts.simps)
next
  case (3 n merged)
  show ?case by simp
next
  case (4 n merged d ds)
  from 4(1) show ?case
  proof
    assume i: "lim_merge_items n merged d = Inr (merge_items merged d)"
    from 4(2) [OF i] i show ?thesis by simp
  next
    assume "lim_merge_items n merged d = Inl RecursionError"
    then show ?thesis by simp
  qed
next
  case (5 n merged)
  show ?case by simp
next
  case (6 n merged key val kvs)
  from 6(1) show ?case
  proof
    assume e: "lim_merge_entry n merged key val = Inr (merge_entry merged key val)"
    from 6(2) [OF e] e show ?thesis by simp
  next
    assume "lim_merge_entry n merged key val = Inl RecursionError"
    then show ?thesis by simp
  qed
next
  case (7 n merged key val)
  note eq = merge_entry.simps [of merged key val]
  note leq = lim_merge_entry.simps [of n merged key val]
  show ?case
  proof (cases "map_of merged key")
    case None
    then show ?thesis by (simp add: eq leq)
  next
    case (Some old)
    show ?thesis
    proof (cases "isinstance_dict old \<and> isinstance_dict val")
      case True
      from 7 [OF Some True] True Some show ?thesis by (auto simp: eq leq)
    next
      case False
      with Some show ?thesis by (auto simp: eq leq)
    qed
  qed
qed

lemma lim_extract_only_depth:
  "lim_extract_unique_types n lst = Inr (extract_unique_types lst)
   \<or> lim_extract_unique_types n lst = Inl RecursionError"
  by (cases "(n, lst)" rule: lim_extract_unique_types.cases) simp_all

lemma lim_infer_only_depth:
  "lim_infer_schema c n obj = infer_schema obj
   \<or> lim_infer_schema c n obj = Inl RecursionError"
  "lim_infer_list_schema c1 n1 lst = infer_list_schema lst
   \<or> lim_infer_list_schema c1 n1 lst = Inl RecursionError"
  "lim_infer_dict_schema c2 n2 data = infer_dict_schema data
   \<or> lim_infer_dict_schema c2 n2 data = Inl RecursionError"
  "lim_infer_items c3 n3 kvs = infer_dict_schema kvs
   \<or> lim_infer_items c3 n3 kvs = Inl RecursionError"
proof (induct c n obj and c1 n1 lst and c2 n2 data and c3 n3 kvs
    rule: lim_infer_schema_lim_infer_list_schema_lim_infer_dict_schema_lim_infer_items.induct)
  case (1 c obj)
  show ?case by (simp add: lim_infer_schema.simps)
next
  case (2 c n obj)
  note eq = infer_schema.simps [of obj] and leq = lim_infer_schema.simps(2) [of c n obj]
  show ?case
  proof (cases "isinstance_list obj")
    case True
    with 2(1) show ?thesis by (auto simp: eq leq)
  next
    case nl: False
    show ?thesis
    proof (cases "isinstance_dict obj")
      case True
      with 2(2) [OF nl True] nl show ?thesis by (auto simp: eq leq)
    next
      case False
      with nl show ?thesis by (simp add: eq leq)
    qed
  qed
next
  case (3 c lst)
  show ?case by (simp add: lim_infer_list_schema.simps)
next
  case (4 c n lst)
  note leq = lim_infer_list_schema.simps(2) [of c n lst]
  show ?case
  proof (cases "lst = []")
    case True
    then show ?thesis by (simp add: lim_infer_list_schema.simps infer_list_schema.simps)
  next
    case ne: False
    from lim_extract_only_depth [of n lst] show ?thesis
    proof
      assume "lim_extract_unique_types n lst = Inl RecursionError"
      with ne show ?thesis by (simp add: leq)
    next
      assume ex: "lim_extract_unique_types n lst = Inr (extract_unique_types lst)"
      show ?thesis
      proof (cases "1 < length (extract_unique_types lst)")
        case True
        with ne ex show ?thesis by (simp add: leq infer_list_schema.simps [of lst])
      next
        case False
        let ?t = "type_name (hd lst)"
        note same = extract_unique_types_single [OF ne False]
        note ts = extract_unique_types_same [OF ne same]
        note eq = infer_list_schema_same [OF ne same]
        consider (d) "?t = ''dict''" | (l) "?t \<noteq> ''dict''" "?t = ''list''"
          | (s) "?t \<noteq> ''dict''" "?t \<noteq> ''list''"
          by blast
        then show ?thesis
        proof cases
          case d
          with same obtain ds where ai: "all_items lst = Inr ds"
            using all_items_dicts [of lst] by auto
          from lim_merge_only_depth(1) [of n ds] show ?thesis
          proof
            assume "lim_merge_nested_dicts n ds = Inl RecursionError"
            with ai d ne ex ts show ?thesis by (simp add: leq)
          next
            assume mg: "lim_merge_nested_dicts n ds = Inr (merge_nested_dicts ds)"
            from 4(1) [OF ne ex False ts d ai mg] mg ai d ne ex ts
            show ?thesis by (auto simp: leq eq)
          qed
        next
          case l
          with same obtain flat where ch: "chain_from_iterable lst = Inr flat"
            using chain_from_iterable_lists [of lst] by auto
          from 4(2) [OF ne ex False ts l(1) l(2) ch] ch l ne ex ts
          show ?thesis by (auto simp: leq eq)
        next
          case s
          with ne ex ts show ?thesis by (simp add: leq eq)
        qed
      qed
    qed
  qed
next
  case (5 c data)
  show ?case by (simp add: lim_infer_dict_schema.simps)
next
  case (6 c n data)
  then show ?case by (simp add: lim_infer_dict_schema.simps)
next
  case (7 c n)
  show ?case by simp
next
  case (8 c n key val kvs)
  obtain s where s: "infer_schema val = Inr s" using infer_total(1) by blast
  from 8(1) show ?case
  proof
    assume v: "lim_infer_schema c n val = infer_schema val"
    with s have "lim_infer_schema c n val = Inr s" by simp
    from 8(2) [OF this] v s show ?thesis by auto
  next
    assume "lim_infer_schema c n val = Inl RecursionError"
    then show ?thesis by simp
  qed
qed


subsection \<open>Deep values\<close>

lemma lim_infer_schema_nested_dicts:
  "n \<le> (2 + c) * k \<Longrightarrow> lim_infer_schema c n (nested_dicts k) = Inl RecursionError"
proof (induction k arbitrary: n)
  case 0
  then show ?case by (simp add: lim_infer_schema.simps)
next
  case (Suc k)
  show ?case
  proof (cases n)
    case 0
    then show ?thesis by (simp add: lim_infer_schema.simps)
  next
    case n: (Suc m)
    show ?thesis
    proof (cases m)
      case 0
      with n show ?thesis by (simp add: lim_infer_schema.simps lim_infer_dict_schema.simps)
    next
      case m: (Suc p)
      show ?thesis
      proof (cases "p < c")
        case True
        with n m show ?thesis by (simp add: lim_infer_schema.simps lim_infer_dict_schema.simps)
      next
        case False
        with Suc.prems n m have "p - c \<le> (2 + c) * k" by simp
        from Suc.IH [OF this] False n m show ?thesis
          by (simp add: lim_infer_schema.simps lim_infer_dict_schema.simps)
      qed
    qed
  qed
qed

text \<open>
  Claim C9, as stated: \<^verbatim>\<open>infer_schema\<close> returns a schema on every JSON value,
  any finite tree of nulls, booleans, numbers, strings, arrays and objects,
  and never raises. It does raise: on the JSON value of 600 nested objects
  \<^verbatim>\<open>{"a": {"a": ... {"a": 1} ... }}\<close>, called with the 1000 frames of the default
  recursion limit, \<^verbatim>\<open>infer_schema\<close> raises \<^verbatim>\<open>RecursionError\<close>, whether a
  comprehension takes a frame of its own or not. With two frames left it
  raises on \<^verbatim>\<open>{"a": 1}\<close>: \<^verbatim>\<open>infer_schema\<close>, \<^verbatim>\<open>infer_dict_schema\<close> and \<^verbatim>\<open>infer_schema\<close>
  again are three calls deep.
\<close>

theorem deep_nesting_counterexample:
  "lim_infer_schema 1 1000 (nested_dicts 600) = Inl RecursionError
   \<and> lim_infer_schema 0 1000 (nested_dicts 600) = Inl RecursionError
   \<and> lim_infer_schema 0 2 (PDict [(''a'', PInt 1)]) = Inl RecursionError"
proof (intro conjI)
  show "lim_infer_schema 1 1000 (nested_dicts 600) = Inl RecursionError"
    by (rule lim_infer_schema_nested_dicts) simp
  show "lim_infer_schema 0 1000 (nested_dicts 600) = Inl RecursionError"
    by (rule lim_infer_schema_nested_dicts) simp
  show "lim_infer_schema 0 2 (PDict [(''a'', PInt 1)]) = Inl RecursionError"
    using lim_infer_schema_nested_dicts [of 2 0 1] by simp
qed

text \<open>
  Claim C9, amended: \<^verbatim>\<open>infer_schema\<close> returns a schema and raises nothing on
  every value whose nesting depth \<open>h\<close> satisfies \<open>(2 + c) * h + 2 \<le> limit\<close>,
  where \<open>limit\<close> is the number of frames the interpreter still allows at the
  call and \<open>c\<close> the number of frames a comprehension takes (0 or 1). On any
  value and with any number of frames, the only exception it raises is
  \<^verbatim>\<open>RecursionError\<close>: \<^verbatim>\<open>types[0]\<close>, \<^verbatim>\<open>d.items()\<close> and \<^verbatim>\<open>chain.from_iterable\<close> never
  raise, and without the bound on the call stack the recursion ends with a
  schema.
\<close>

theorem infer_schema_total_within_depth:
  "(\<exists>s. infer_schema obj = Inr s)
   \<and> (lim_infer_schema c limit obj = infer_schema obj
      \<or> lim_infer_schema c limit obj = Inl RecursionError)
   \<and> ((2 + c) * height obj + 2 \<le> limit \<longrightarrow> lim_infer_schema c limit obj = infer_schema obj)"
  using infer_total(1) [of obj] lim_infer_only_depth(1) [of c limit obj]
    lim_infer_enough(1) [of c obj]
  by blast

theorem infer_schema_total_within_depth_witness:
  "(2 + 1) * height (PList [PDict [(''a'', PList [PInt 1, PNone])], PDict [(''a'', PFloat 2.5)]])
     + 2 \<le> 11
   \<and> lim_infer_schema 1 11
       (PList [PDict [(''a'', PList [PInt 1, PNone])], PDict [(''a'', PFloat 2.5)]])
     = Inr (SArray [SObject [(''a'', SKind ''MixedType'')]])
   \<and> infer_schema (PList [PDict [(''a'', PList [PInt 1, PNone])], PDict [(''a'', PFloat 2.5)]])
     = Inr (SArray [SObject [(''a'', SKind ''MixedType'')]])"
proof -
  have "infer_schema (PList [PDict [(''a'', PList [PInt 1, PNone])], PDict [(''a'', PFloat 2.5)]])
     = Inr (SArray [SObject [(''a'', SKind ''MixedType'')]])"
    by code_simp
  with infer_schema_total_within_depth [of
      "PList [PDict [(''a'', PList [PInt 1, PNone])], PDict [(''a'', PFloat 2.5)]]" 1 11]
  show ?thesis by simp
qed


section \<open>The store: what the calls do to the caller's objects\<close>

text \<open>
  Python lists and dicts are objects: \<^verbatim>\<open>merged[key] = value\<close> stores a reference
  to the caller's object, and \<^verbatim>\<open>merged[key].extend(value)\<close> changes the object
  that reference points to. To see what a call does to its argument, the same
  functions are read here over an explicit store: a list or dict value is a
  reference to a cell, scalars and \<^verbatim>\<open>MixedType\<close> instances are immediate values
  (nothing in the program depends on their identity).
\<close>

type_synonym addr = nat

datatype rval =
    RNone
  | RBool bool
  | RInt int
  | RFloat real
  | RStr string
  | RMixed
  | RRef addr

datatype cell = CList "rval list" | CDict "(string \<times> rval) list"

type_synonym store = "cell list"

text \<open>
  Reading a cell; \<^verbatim>\<open>isinstance\<close> and \<^verbatim>\<open>type(x).__name__\<close> look at the cell a
  reference points to.
\<close>

definition cell_at :: "store \<Rightarrow> rval \<Rightarrow> cell option" where
  "cell_at h v = (case v of RRef a \<Rightarrow> (if a < length h then Some (h ! a) else None) | _ \<Rightarrow> None)"

definition elems_at :: "store \<Rightarrow> rval \<Rightarrow> rval list option" where
  "elems_at h v = (case cell_at h v of Some (CList xs) \<Rightarrow> Some xs | _ \<Rightarrow> None)"

definition items_at :: "store \<Rightarrow> rval \<Rightarrow> (string \<times> rval) list option" where
  "items_at h v = (case cell_at h v of Some (CDict kvs) \<Rightarrow> Some kvs | _ \<Rightarrow> None)"

definition st_isinstance_list :: "store \<Rightarrow> rval \<Rightarrow> bool" where
  "st_isinstance_list h v = (elems_at h v \<noteq> None)"

definition st_isinstance_dict :: "store \<Rightarrow> rval \<Rightarrow> bool" where
  "st_isinstance_dict h v = (items_at h v \<noteq> None)"

fun st_type_name :: "store \<Rightarrow> rval \<Rightarrow> string" where
  "st_type_name h RNone = ''NoneType''"
| "st_type_name h (RBool b) = ''bool''"
| "st_type_name h (RInt i) = ''int''"
| "st_type_name h (RFloat r) = ''float''"
| "st_type_name h (RStr s) = ''str''"
| "st_type_name h RMixed = ''MixedType''"
| "st_type_name h (RRef a) = (if st_isinstance_dict h (RRef a) then ''dict'' else ''list'')"

text \<open>
  \<^verbatim>\<open>merged = {}\<close> allocates a new cell; \<^verbatim>\<open>d[key] = val\<close> and \<^verbatim>\<open>l.extend(val)\<close>
  update the cell of \<^verbatim>\<open>d\<close> and of \<^verbatim>\<open>l\<close> in place.
\<close>

definition new_dict :: "store \<Rightarrow> rval \<times> store" where
  "new_dict h = (RRef (length h), h @ [CDict []])"

definition setitem :: "store \<Rightarrow> rval \<Rightarrow> string \<Rightarrow> rval \<Rightarrow> store option" where
  "setitem h d key val =
     (case (d, items_at h d) of
        (RRef a, Some kvs) \<Rightarrow> Some (h[a := CDict (AList.update key val kvs)])
      | _ \<Rightarrow> None)"

definition extend :: "store \<Rightarrow> rval \<Rightarrow> rval \<Rightarrow> store option" where
  "extend h l val =
     (case (l, elems_at h l, elems_at h val) of
        (RRef a, Some xs, Some ys) \<Rightarrow> Some (h[a := CList (xs @ ys)])
      | _ \<Rightarrow> None)"

text \<open>
  \<^verbatim>\<open>merge_nested_dicts\<close> over the store. The functions return \<open>None\<close> when a
  reference does not point to a cell of the kind the operation needs, and
  when the recursion is deeper than \<open>fuel\<close>; a store may hold cycles, so the
  depth of the recursion is not bounded by the size of a value. Each loop
  reads the items of its dict when it starts; the program changes no dict
  while it iterates over it (\<^verbatim>\<open>merged\<close> is the only dict it assigns to).
\<close>

function st_merge_nested_dicts :: "nat \<Rightarrow> rval list \<Rightarrow> store \<Rightarrow> (rval \<times> store) option"
  and st_merge_dicts :: "nat \<Rightarrow> rval \<Rightarrow> rval list \<Rightarrow> store \<Rightarrow> store option"
  and st_merge_items :: "nat \<Rightarrow> rval \<Rightarrow> (string \<times> rval) list \<Rightarrow> store \<Rightarrow> store option"
  and st_merge_entry :: "nat \<Rightarrow> rval \<Rightarrow> string \<Rightarrow> rval \<Rightarrow> store \<Rightarrow> store option"
where
  "st_merge_nested_dicts fuel dict_list h =
     (case new_dict h of
        (merged, h1) \<Rightarrow>
          (case st_merge_dicts fuel merged dict_list h1 of
             None \<Rightarrow> None
           | Some h2 \<Rightarrow> Some (merged, h2)))"
| "st_merge_dicts fuel merged [] h = Some h"
| "st_merge_dicts fuel merged (d # ds) h =
     (case items_at h d of
        None \<Rightarrow> None
      | Some kvs \<Rightarrow>
          (case st_merge_items fuel merged kvs h of
             None \<Rightarrow> None
           | Some h' \<Rightarrow> st_merge_dicts fuel merged ds h'))"
| "st_merge_items fuel merged [] h = Some h"
| "st_merge_items fuel merged ((key, val) # kvs) h =
     (case st_merge_entry fuel merged key val h of
        None \<Rightarrow> None
      | Some h' \<Rightarrow> st_merge_items fuel merged kvs h')"
| "st_merge_entry fuel merged key val h =
     (case items_at h merged of
        None \<Rightarrow> None
      | Some kvs \<Rightarrow>
          (case map_of kvs key of
             Some old \<Rightarrow>
               if st_isinstance_dict h old \<and> st_isinstance_dict h val then
                 (case fuel of
                    0 \<Rightarrow> None
                  | Suc fuel' \<Rightarrow>
                      (case st_merge_nested_dicts fuel' [old, val] h of
                         None \<Rightarrow> None
                       | Some (r, h') \<Rightarrow> setitem h' merged key r))
               else if st_isinstance_list h old \<and> st_isinstance_list h val then
                 extend h old val
               else if st_isinstance_list h old \<noteq> st_isinstance_list h val then
                 setitem h merged key RMixed
               else Some h
           | None \<Rightarrow> setitem h merged key val))"
  by pat_completeness auto

termination
  by (relation "measures
    [\<lambda>x. case x of
        Inl (Inl (fuel, dl, h)) \<Rightarrow> fuel
      | Inl (Inr (fuel, m, ds, h)) \<Rightarrow> fuel
      | Inr (Inl (fuel, m, kvs, h)) \<Rightarrow> fuel
      | Inr (Inr (fuel, m, key, val, h)) \<Rightarrow> fuel,
     \<lambda>x. case x of
        Inl (Inl (fuel, dl, h)) \<Rightarrow> 3
      | Inl (Inr (fuel, m, ds, h)) \<Rightarrow> 2
      | Inr (Inl (fuel, m, kvs, h)) \<Rightarrow> 1
      | Inr (Inr (fuel, m, key, val, h)) \<Rightarrow> 0,
     \<lambda>x. case x of
        Inl (Inl (fuel, dl, h)) \<Rightarrow> 0
      | Inl (Inr (fuel, m, ds, h)) \<Rightarrow> length ds
      | Inr (Inl (fuel, m, kvs, h)) \<Rightarrow> length kvs
      | Inr (Inr (fuel, m, key, val, h)) \<Rightarrow> 0]") auto

text \<open>\<^verbatim>\<open>list(chain.from_iterable(lst))\<close> builds a new list from the elements.\<close>

fun st_chain_from_iterable :: "store \<Rightarrow> rval list \<Rightarrow> rval list option" where
  "st_chain_from_iterable h [] = Some []"
| "st_chain_from_iterable h (x # xs) =
     (case elems_at h x of
        None \<Rightarrow> None
      | Some ys \<Rightarrow> (case st_chain_from_iterable h xs of None \<Rightarrow> None | Some rest \<Rightarrow> Some (ys @ rest)))"

definition st_extract_unique_types :: "store \<Rightarrow> rval list \<Rightarrow> string list" where
  "st_extract_unique_types h lst = remdups (map (st_type_name h) lst)"

text \<open>
  \<^verbatim>\<open>infer_schema\<close>, \<^verbatim>\<open>infer_list_schema\<close> and \<^verbatim>\<open>infer_dict_schema\<close> over the
  store. \<open>st_infer_list_schema\<close> takes the elements of its list argument: the
  program only reads that list.
\<close>

function st_infer_schema :: "nat \<Rightarrow> rval \<Rightarrow> store \<Rightarrow> (schema \<times> store) option"
  and st_infer_list_schema :: "nat \<Rightarrow> rval list \<Rightarrow> store \<Rightarrow> (schema \<times> store) option"
  and st_infer_dict_schema ::
    "nat \<Rightarrow> (string \<times> rval) list \<Rightarrow> store \<Rightarrow> ((string \<times> schema) list \<times> store) option"
where
  "st_infer_schema fuel obj h =
     (case fuel of
        0 \<Rightarrow> None
      | Suc fuel' \<Rightarrow>
          if st_isinstance_list h obj then
            (case elems_at h obj of None \<Rightarrow> None | Some lst \<Rightarrow> st_infer_list_schema fuel' lst h)
          else if st_isinstance_dict h obj then
            (case items_at h obj of
               None \<Rightarrow> None
             | Some kvs \<Rightarrow>
                 (case st_infer_dict_schema fuel' kvs h of
                    None \<Rightarrow> None
                  | Some (s, h') \<Rightarrow> Some (SObject s, h')))
          else if obj = RNone then Some (SNull, h)
          else Some (SKind (st_type_name h obj), h))"
| "st_infer_list_schema fuel lst h =
     (if lst \<noteq> [] then
        (let types = st_extract_unique_types h lst in
         if length types > 1 then Some (SKinds (set types), h)
         else
           (case types of
              [] \<Rightarrow> None
            | t0 # ts \<Rightarrow>
                if t0 = ''dict'' then
                  (case st_merge_nested_dicts fuel lst h of
                     None \<Rightarrow> None
                   | Some (merged, h') \<Rightarrow>
                       (case items_at h' merged of
                          None \<Rightarrow> None
                        | Some kvs \<Rightarrow>
                            (case st_infer_dict_schema fuel kvs h' of
                               None \<Rightarrow> None
                             | Some (s, h'') \<Rightarrow> Some (SArray [SObject s], h''))))
                else if t0 = ''list'' then
                  (case st_chain_from_iterable h lst of
                     None \<Rightarrow> None
                   | Some flat \<Rightarrow>
                       (case fuel of
                          0 \<Rightarrow> None
                        | Suc fuel' \<Rightarrow>
                            (case st_infer_list_schema fuel' flat h of
                               None \<Rightarrow> None
                             | Some (s, h') \<Rightarrow> Some (SArray [s], h'))))
                else Some (SArray [SKind t0], h)))
      else Some (SArray [], h))"
| "st_infer_dict_schema fuel [] h = Some ([], h)"
| "st_infer_dict_schema fuel ((key, val) # kvs) h =
     (case st_infer_schema fuel val h of
        None \<Rightarrow> None
      | Some (s, h') \<Rightarrow>
          (case st_infer_dict_schema fuel kvs h' of
             None \<Rightarrow> None
           | Some (rest, h'') \<Rightarrow> Some ((key, s) # rest, h'')))"
  by pat_completeness auto

termination
  by (relation "measures
    [\<lambda>x. case x of
        Inl (fuel, obj, h) \<Rightarrow> 2 * fuel
      | Inr (Inl (fuel, lst, h)) \<Rightarrow> 2 * fuel + 1
      | Inr (Inr (fuel, kvs, h)) \<Rightarrow> 2 * fuel + 1,
     \<lambda>x. case x of
        Inl (fuel, obj, h) \<Rightarrow> 0
      | Inr (Inl (fuel, lst, h)) \<Rightarrow> 1
      | Inr (Inr (fuel, kvs, h)) \<Rightarrow> 0,
     \<lambda>x. case x of
        Inl (fuel, obj, h) \<Rightarrow> 0
      | Inr (Inl (fuel, lst, h)) \<Rightarrow> 0
      | Inr (Inr (fuel, kvs, h)) \<Rightarrow> length kvs]") auto

text \<open>The value a reference stands for, read from the store down to a depth.\<close>

primrec value_of :: "nat \<Rightarrow> store \<Rightarrow> rval \<Rightarrow> pyval option" where
  "value_of 0 h v = None"
| "value_of (Suc depth) h v =
     (case v of
        RNone \<Rightarrow> Some PNone
      | RBool b \<Rightarrow> Some (PBool b)
      | RInt i \<Rightarrow> Some (PInt i)
      | RFloat r \<Rightarrow> Some (PFloat r)
      | RStr s \<Rightarrow> Some (PStr s)
      | RMixed \<Rightarrow> Some PMixed
      | RRef a \<Rightarrow>
          (case cell_at h v of
             None \<Rightarrow> None
           | Some (CList xs) \<Rightarrow> map_option PList (those (map (value_of depth h) xs))
           | Some (CDict kvs) \<Rightarrow>
               map_option (\<lambda>vs. PDict (zip (map fst kvs) vs))
                 (those (map (\<lambda>(k, x). value_of depth h x) kvs))))"

text \<open>
  A value as \<^verbatim>\<open>json.load\<close> builds it: every list and dict gets a cell of its
  own, after the cells of what it holds.
\<close>

fun load :: "pyval \<Rightarrow> store \<Rightarrow> rval \<times> store"
  and load_list :: "pyval list \<Rightarrow> store \<Rightarrow> rval list \<times> store"
  and load_items :: "pydict \<Rightarrow> store \<Rightarrow> (string \<times> rval) list \<times> store"
where
  "load PNone h = (RNone, h)"
| "load (PBool b) h = (RBool b, h)"
| "load (PInt i) h = (RInt i, h)"
| "load (PFloat r) h = (RFloat r, h)"
| "load (PStr s) h = (RStr s, h)"
| "load PMixed h = (RMixed, h)"
| "load (PList vs) h = (case load_list vs h of (rs, h') \<Rightarrow> (RRef (length h'), h' @ [CList rs]))"
| "load (PDict items) h =
     (case load_items items h of (kvs, h') \<Rightarrow> (RRef (length h'), h' @ [CDict kvs]))"
| "load_list [] h = ([], h)"
| "load_list (v # vs) h =
     (case load v h of (r, h') \<Rightarrow> (case load_list vs h' of (rs, h'') \<Rightarrow> (r # rs, h'')))"
| "load_items [] h = ([], h)"
| "load_items ((k, v) # items) h =
     (case load v h of (r, h') \<Rightarrow> (case load_items items h' of (kvs, h'') \<Rightarrow> ((k, r) # kvs, h'')))"

text \<open>
  The store after \<^verbatim>\<open>x = json.loads('[{"a": [1]}, {"a": [2, 3]}]')\<close>, with
  \<^verbatim>\<open>x\<close> at address 4, and the store after \<^verbatim>\<open>infer_schema(x)\<close>: address 5 is
  the dict \<^verbatim>\<open>merged\<close>, whose entry \<open>a\<close> is the list of the first sibling.
\<close>

definition store_before :: store where
  "store_before =
     [CList [RInt 1], CDict [(''a'', RRef 0)],
      CList [RInt 2, RInt 3], CDict [(''a'', RRef 2)],
      CList [RRef 1, RRef 3]]"

definition store_after :: store where
  "store_after =
     [CList [RInt 1, RInt 2, RInt 3], CDict [(''a'', RRef 0)],
      CList [RInt 2, RInt 3], CDict [(''a'', RRef 2)],
      CList [RRef 1, RRef 3],
      CDict [(''a'', RRef 0)]]"

text \<open>
  Claim C2 says that \<^verbatim>\<open>infer_schema\<close> leaves its input as it was. On
  \<^verbatim>\<open>[{"a": [1]}, {"a": [2, 3]}]\<close> it does not: the call returns
  \<^verbatim>\<open>[{"a": ["int"]}]\<close> and has appended the second sibling's elements to the
  first sibling's list, so the input now reads
  \<^verbatim>\<open>[{"a": [1, 2, 3]}, {"a": [2, 3]}]\<close>.
\<close>

theorem infer_schema_extends_input_list:
  "load (PList [PDict [(''a'', PList [PInt 1])], PDict [(''a'', PList [PInt 2, PInt 3])]]) []
     = (RRef 4, store_before)
   \<and> value_of 5 store_before (RRef 4)
     = Some (PList [PDict [(''a'', PList [PInt 1])], PDict [(''a'', PList [PInt 2, PInt 3])]])
   \<and> st_infer_schema 5 (RRef 4) store_before
     = Some (SArray [SObject [(''a'', SArray [SKind ''int''])]], store_after)
   \<and> value_of 5 store_after (RRef 4)
     = Some (PList [PDict [(''a'', PList [PInt 1, PInt 2, PInt 3])],
                    PDict [(''a'', PList [PInt 2, PInt 3])]])"
  by code_simp


section \<open>The value-level functions give the results of the store-level functions\<close>

text \<open>
  The value-level functions of the first sections ignore the store. This
  section shows that they may: when the argument is held in the store as a
  tree, \<open>st_infer_schema\<close> returns, for enough fuel, the schema that
  \<open>infer_schema\<close> computes from the value, and it changes no cell outside the
  argument. The in-place \<^verbatim>\<open>extend\<close> changes the caller's lists, but never a
  list that the rest of the call still reads with its old elements.
\<close>

subsection \<open>A value held in the store\<close>

text \<open>
  \<open>rep h r v A\<close>: in the store \<open>h\<close> the reference \<open>r\<close> stands for the value \<open>v\<close>,
  held in the cells \<open>A\<close>, and no cell is reached twice: the store holds \<open>v\<close> as
  a tree, as \<^verbatim>\<open>json.load\<close> builds it. \<open>reps\<close> and \<open>repd\<close> are the same for the
  elements of a list and the items of a dict.
\<close>

inductive rep :: "store \<Rightarrow> rval \<Rightarrow> pyval \<Rightarrow> addr set \<Rightarrow> bool"
  and reps :: "store \<Rightarrow> rval list \<Rightarrow> pyval list \<Rightarrow> addr set \<Rightarrow> bool"
  and repd :: "store \<Rightarrow> (string \<times> rval) list \<Rightarrow> pydict \<Rightarrow> addr set \<Rightarrow> bool"
  for h :: store
where
  rep_None: "rep h RNone PNone {}"
| rep_Bool: "rep h (RBool b) (PBool b) {}"
| rep_Int: "rep h (RInt i) (PInt i) {}"
| rep_Float: "rep h (RFloat r) (PFloat r) {}"
| rep_Str: "rep h (RStr s) (PStr s) {}"
| rep_Mixed: "rep h RMixed PMixed {}"
| rep_List: "cell_at h (RRef a) = Some (CList rs) \<Longrightarrow> reps h rs vs A \<Longrightarrow> a \<notin> A
     \<Longrightarrow> rep h (RRef a) (PList vs) (insert a A)"
| rep_Dict: "cell_at h (RRef a) = Some (CDict kvs) \<Longrightarrow> repd h kvs items A \<Longrightarrow> a \<notin> A
     \<Longrightarrow> rep h (RRef a) (PDict items) (insert a A)"
| reps_Nil: "reps h [] [] {}"
| reps_Cons: "rep h r v A \<Longrightarrow> reps h rs vs B \<Longrightarrow> A \<inter> B = {}
     \<Longrightarrow> reps h (r # rs) (v # vs) (A \<union> B)"
| repd_Nil: "repd h [] [] {}"
| repd_Cons: "rep h r v A \<Longrightarrow> repd h kvs items B \<Longrightarrow> A \<inter> B = {}
     \<Longrightarrow> repd h ((k, r) # kvs) ((k, v) # items) (A \<union> B)"

inductive_cases rep_PListE: "rep h r (PList vs) A"
inductive_cases rep_PDictE: "rep h r (PDict items) A"
inductive_cases rep_RefE: "rep h (RRef a) v A"
inductive_cases reps_NilE: "reps h [] vs A"
inductive_cases reps_ConsE: "reps h (r # rs) vs A"
inductive_cases reps_Nil2E: "reps h rs [] A"
inductive_cases reps_Cons2E: "reps h rs (v # vs) A"
inductive_cases repd_NilE: "repd h [] items A"
inductive_cases repd_ConsE: "repd h (kv # kvs) items A"
inductive_cases repd_Nil2E: "repd h kvs [] A"
inductive_cases repd_Cons2E: "repd h kvs (kv # items) A"

lemma rep_bounded:
  "rep h r v A \<Longrightarrow> A \<subseteq> {..<length h}"
  "reps h rs vs B \<Longrightarrow> B \<subseteq> {..<length h}"
  "repd h kvs items C \<Longrightarrow> C \<subseteq> {..<length h}"
  by (induction rule: rep_reps_repd.inducts)
     (auto simp: cell_at_def split: if_splits)

lemma rep_frame:
  "rep h r v A \<Longrightarrow> (\<forall>a\<in>A. cell_at h' (RRef a) = cell_at h (RRef a)) \<Longrightarrow> rep h' r v A"
  "reps h rs vs B \<Longrightarrow> (\<forall>a\<in>B. cell_at h' (RRef a) = cell_at h (RRef a)) \<Longrightarrow> reps h' rs vs B"
  "repd h kvs items C \<Longrightarrow> (\<forall>a\<in>C. cell_at h' (RRef a) = cell_at h (RRef a)) \<Longrightarrow> repd h' kvs items C"
  by (induction rule: rep_reps_repd.inducts)
     (auto intro: rep_reps_repd.intros)

lemma rep_type_name: "rep h r v A \<Longrightarrow> st_type_name h r = type_name v"
  by (erule rep.cases)
     (auto simp: st_isinstance_dict_def items_at_def)

lemma rep_isinstance_list: "rep h r v A \<Longrightarrow> st_isinstance_list h r = isinstance_list v"
  by (erule rep.cases)
     (auto simp: st_isinstance_list_def elems_at_def cell_at_def)

lemma rep_isinstance_dict: "rep h r v A \<Longrightarrow> st_isinstance_dict h r = isinstance_dict v"
  by (erule rep.cases)
     (auto simp: st_isinstance_dict_def items_at_def cell_at_def)

subsection \<open>More fuel gives the same result\<close>

declare st_merge_nested_dicts.simps [simp del] st_merge_entry.simps [simp del]
declare st_infer_schema.simps [simp del] st_infer_list_schema.simps [simp del]

lemma st_merge_mono:
  "\<forall>r fuel2. st_merge_nested_dicts fuel dl h = Some r \<longrightarrow> fuel \<le> fuel2 \<longrightarrow>
     st_merge_nested_dicts fuel2 dl h = Some r"
  "\<forall>h' fuel2. st_merge_dicts fuel1 m1 ds h1 = Some h' \<longrightarrow> fuel1 \<le> fuel2 \<longrightarrow>
     st_merge_dicts fuel2 m1 ds h1 = Some h'"
  "\<forall>h' fuel2. st_merge_items fuel3 m3 kvs h3 = Some h' \<longrightarrow> fuel3 \<le> fuel2 \<longrightarrow>
     st_merge_items fuel2 m3 kvs h3 = Some h'"
  "\<forall>h' fuel2. st_merge_entry fuel4 m4 key val h4 = Some h' \<longrightarrow> fuel4 \<le> fuel2 \<longrightarrow>
     st_merge_entry fuel2 m4 key val h4 = Some h'"
proof (induct fuel dl h and fuel1 m1 ds h1 and fuel3 m3 kvs h3 and fuel4 m4 key val h4
    rule: st_merge_nested_dicts_st_merge_dicts_st_merge_items_st_merge_entry.induct)
  case (1 fuel dict_list h)
  show ?case
  proof (intro allI impI)
    fix r fuel2
    assume a: "st_merge_nested_dicts fuel dict_list h = Some r" and le: "fuel \<le> fuel2"
    obtain merged h1 where nd: "new_dict h = (merged, h1)" by (cases "new_dict h")
    with a obtain h2 where "st_merge_dicts fuel merged dict_list h1 = Some h2"
      and r: "r = (merged, h2)"
      by (auto simp: st_merge_nested_dicts.simps [of fuel] split: option.splits)
    with 1 [OF nd [symmetric]] le
    have "st_merge_dicts fuel2 merged dict_list h1 = Some h2" by blast
    with nd r show "st_merge_nested_dicts fuel2 dict_list h = Some r"
      by (simp add: st_merge_nested_dicts.simps [of fuel2])
  qed
next
  case (2 fuel merged h)
  show ?case by simp
next
  case (3 fuel merged d ds h)
  show ?case
  proof (intro allI impI)
    fix h' fuel2
    assume a: "st_merge_dicts fuel merged (d # ds) h = Some h'" and le: "fuel \<le> fuel2"
    then obtain kvs hh where kvs: "items_at h d = Some kvs"
      and i: "st_merge_items fuel merged kvs h = Some hh"
      and r: "st_merge_dicts fuel merged ds hh = Some h'"
      by (auto split: option.splits)
    from 3(1) [OF kvs] i le have "st_merge_items fuel2 merged kvs h = Some hh" by blast
    moreover from 3(2) [OF kvs i] r le have "st_merge_dicts fuel2 merged ds hh = Some h'"
      by blast
    ultimately show "st_merge_dicts fuel2 merged (d # ds) h = Some h'"
      using kvs by simp
  qed
next
  case (4 fuel merged h)
  show ?case by simp
next
  case (5 fuel merged key val kvs h)
  show ?case
  proof (intro allI impI)
    fix h' fuel2
    assume a: "st_merge_items fuel merged ((key, val) # kvs) h = Some h'" and le: "fuel \<le> fuel2"
    then obtain hh where e: "st_merge_entry fuel merged key val h = Some hh"
      and r: "st_merge_items fuel merged kvs hh = Some h'"
      by (auto split: option.splits)
    from 5(1) e le have "st_merge_entry fuel2 merged key val h = Some hh" by blast
    moreover from 5(2) [OF e] r le have "st_merge_items fuel2 merged kvs hh = Some h'"
      by blast
    ultimately show "st_merge_items fuel2 merged ((key, val) # kvs) h = Some h'"
      by simp
  qed
next
  case (6 fuel merged key val h)
  show ?case
  proof (intro allI impI)
    fix h' fuel2
    assume a: "st_merge_entry fuel merged key val h = Some h'" and le: "fuel \<le> fuel2"
    note eq = st_merge_entry.simps [of _ merged key val h]
    note eq2 = st_merge_entry.simps [of _ merged key val h]
    from a obtain kvs where kvs: "items_at h merged = Some kvs"
      by (auto simp: eq split: option.splits)
    show "st_merge_entry fuel2 merged key val h = Some h'"
    proof (cases "map_of kvs key")
      case None
      with kvs a show ?thesis by (simp add: eq eq2)
    next
      case (Some old)
      show ?thesis
      proof (cases "st_isinstance_dict h old \<and> st_isinstance_dict h val")
        case False
        with kvs Some a show ?thesis
          by (auto simp: eq eq2)
      next
        case True
        with kvs Some a obtain f where f: "fuel = Suc f"
          by (cases fuel) (auto simp: eq)
        with le obtain f2 where f2: "fuel2 = Suc f2" and le2: "f \<le> f2"
          by (cases fuel2) auto
        from kvs Some True f a obtain r hh where
          r: "st_merge_nested_dicts f [old, val] h = Some (r, hh)"
          and s: "setitem hh merged key r = Some h'"
          by (auto simp: eq split: option.splits)
        from 6 [OF kvs Some True f] r le2
        have "st_merge_nested_dicts f2 [old, val] h = Some (r, hh)" by blast
        with kvs Some True f2 s show ?thesis
          by (simp add: eq2)
      qed
    qed
  qed
qed

subsection \<open>Cells a call leaves alone\<close>

text \<open>
  \<open>frame h h' A\<close>: the store \<open>h'\<close> has the cells of \<open>h\<close>, possibly more, and
  differs from \<open>h\<close> on the old cells in \<open>A\<close> at most.
\<close>

definition frame :: "store \<Rightarrow> store \<Rightarrow> addr set \<Rightarrow> bool" where
  "frame h h' A \<longleftrightarrow> length h \<le> length h' \<and> (\<forall>a<length h. a \<notin> A \<longrightarrow> h' ! a = h ! a)"

lemma frame_refl: "frame h h A"
  by (simp add: frame_def)

lemma frame_mono: "frame h h' A \<Longrightarrow> A \<subseteq> B \<Longrightarrow> frame h h' B"
  by (auto simp: frame_def)

lemma frame_trans:
  assumes "frame h h' A" and "frame h' h'' B" and "B \<inter> {..<length h} \<subseteq> A"
  shows "frame h h'' A"
  unfolding frame_def
proof (intro conjI allI impI)
  from assms(1,2) show "length h \<le> length h''" by (simp add: frame_def)
  fix a assume a: "a < length h" "a \<notin> A"
  with assms(3) have "a \<notin> B" by auto
  moreover from a assms(1) have "a < length h'" by (simp add: frame_def)
  ultimately have "h'' ! a = h' ! a" using assms(2) by (simp add: frame_def)
  also from a assms(1) have "h' ! a = h ! a" by (simp add: frame_def)
  finally show "h'' ! a = h ! a" .
qed

lemma frame_cell_at:
  "frame h h' A \<Longrightarrow> a < length h \<Longrightarrow> a \<notin> A \<Longrightarrow> cell_at h' (RRef a) = cell_at h (RRef a)"
  by (simp add: frame_def cell_at_def)

lemma frame_cells:
  assumes "frame h h' A" and "B \<subseteq> {..<length h}" and "A \<inter> B = {}"
  shows "\<forall>a\<in>B. cell_at h' (RRef a) = cell_at h (RRef a)"
proof
  fix a assume "a \<in> B"
  with assms(2,3) have "a < length h" and "a \<notin> A" by auto
  with assms(1) show "cell_at h' (RRef a) = cell_at h (RRef a)"
    by (rule frame_cell_at)
qed

lemma frame_rep:
  assumes "frame h h' A" and "rep h r v B" and "A \<inter> B = {}"
  shows "rep h' r v B"
  using assms(2) frame_cells [OF assms(1) rep_bounded(1) [OF assms(2)] assms(3)]
  by (rule rep_frame(1))

lemma frame_reps:
  assumes "frame h h' A" and "reps h rs vs B" and "A \<inter> B = {}"
  shows "reps h' rs vs B"
  using assms(2) frame_cells [OF assms(1) rep_bounded(2) [OF assms(2)] assms(3)]
  by (rule rep_frame(2))

lemma frame_repd:
  assumes "frame h h' A" and "repd h kvs items B" and "A \<inter> B = {}"
  shows "repd h' kvs items B"
  using assms(2) frame_cells [OF assms(1) rep_bounded(3) [OF assms(2)] assms(3)]
  by (rule rep_frame(3))

lemma frame_update:
  "a < length h \<Longrightarrow> a \<in> A \<Longrightarrow> frame h (h[a := c]) A"
  by (auto simp: frame_def nth_list_update)

lemma cell_at_update_same:
  "a < length h \<Longrightarrow> cell_at (h[a := c]) (RRef a) = Some c"
  by (simp add: cell_at_def)

lemma reps_append:
  "reps h xs xv A \<Longrightarrow> reps h ys yv B \<Longrightarrow> A \<inter> B = {} \<Longrightarrow>
     reps h (xs @ ys) (xv @ yv) (A \<union> B)"
proof (induction xs arbitrary: xv A)
  case Nil
  then show ?case by (auto elim: reps_NilE)
next
  case (Cons x xs)
  from Cons.prems(1) obtain v vs A1 A2 where xv: "xv = v # vs" and A: "A = A1 \<union> A2"
    and r: "rep h x v A1" and rs: "reps h xs vs A2" and d: "A1 \<inter> A2 = {}"
    by (auto elim: reps_ConsE)
  from Cons.IH [OF rs Cons.prems(2)] Cons.prems(3) A
  have "reps h (xs @ ys) (vs @ yv) (A2 \<union> B)" by auto
  with r have "reps h (x # xs @ ys) (v # vs @ yv) (A1 \<union> (A2 \<union> B))"
    using d Cons.prems(3) A by (intro reps_Cons) auto
  with xv A show ?case by (simp add: Un_assoc)
qed

lemma update_same: "map_of kvs key = Some old \<Longrightarrow> AList.update key old kvs = kvs"
  by (induction kvs) (auto split: if_splits)

lemma repd_keys: "repd h kvs items A \<Longrightarrow> map fst kvs = map fst items"
proof (induction kvs arbitrary: items A)
  case Nil
  then show ?case by (auto elim: repd_NilE)
next
  case (Cons kv kvs)
  then show ?case by (auto elim!: repd_ConsE)
qed

lemma repd_lookup_None:
  "repd h kvs items A \<Longrightarrow> map_of kvs key = None \<longleftrightarrow> map_of items key = None"
  by (simp add: map_of_eq_None_iff repd_keys flip: set_map)

lemma repd_insert:
  "repd h kvs items B \<Longrightarrow> map_of kvs key = None \<Longrightarrow> rep h r v A \<Longrightarrow> A \<inter> B = {} \<Longrightarrow>
     repd h (AList.update key r kvs) (AList.update key v items) (B \<union> A)"
proof (induction kvs arbitrary: items B)
  case Nil
  then have "items = []" "B = {}" by (auto elim: repd_NilE)
  with Nil.prems(3) repd_Cons [OF Nil.prems(3) repd_Nil, of key] show ?case by simp
next
  case (Cons kv kvs)
  from Cons.prems(1) obtain k r0 v0 items' B1 B2 where kv: "kv = (k, r0)"
    and items: "items = (k, v0) # items'" and B: "B = B1 \<union> B2"
    and r0: "rep h r0 v0 B1" and rest: "repd h kvs items' B2" and d: "B1 \<inter> B2 = {}"
    by (auto elim!: repd_ConsE)
  from Cons.prems(2) kv have ne: "k \<noteq> key" and none: "map_of kvs key = None"
    by (auto split: if_splits)
  from Cons.IH [OF rest none Cons.prems(3)] Cons.prems(4) B
  have "repd h (AList.update key r kvs) (AList.update key v items') (B2 \<union> A)" by auto
  with r0 have "repd h ((k, r0) # AList.update key r kvs) ((k, v0) # AList.update key v items')
      (B1 \<union> (B2 \<union> A))"
    using d Cons.prems(4) B by (intro repd_Cons) auto
  with kv items ne B show ?case by (simp add: Un_assoc)
qed

text \<open>An entry found under a key, and what is needed to replace it.\<close>

lemma repd_lookup_Some:
  assumes "repd h kvs items B" and "map_of kvs key = Some old"
  obtains ov Bo Br where "map_of items key = Some ov" and "rep h old ov Bo"
    and "B = Bo \<union> Br" and "Bo \<inter> Br = {}"
    and "\<And>h' r' v' B'. rep h' r' v' B' \<Longrightarrow> B' \<inter> Br = {} \<Longrightarrow>
           (\<forall>a\<in>Br. cell_at h' (RRef a) = cell_at h (RRef a)) \<Longrightarrow>
           repd h' (AList.update key r' kvs) (AList.update key v' items) (B' \<union> Br)"
  using assms
proof (induction kvs arbitrary: items B thesis)
  case Nil
  then show ?case by simp
next
  case (Cons kv kvs)
  from Cons.prems(2) obtain k r0 v0 items' B1 B2 where kv: "kv = (k, r0)"
    and items: "items = (k, v0) # items'" and B: "B = B1 \<union> B2"
    and r0: "rep h r0 v0 B1" and rest: "repd h kvs items' B2" and d: "B1 \<inter> B2 = {}"
    by (auto elim!: repd_ConsE)
  show ?case
  proof (cases "k = key")
    case True
    with Cons.prems(3) kv have old: "old = r0" by simp
    show ?thesis
    proof (rule Cons.prems(1) [of v0 B1 B2])
      show "map_of items key = Some v0" using items True by simp
      show "rep h old v0 B1" using old r0 by simp
      show "B = B1 \<union> B2" by fact
      show "B1 \<inter> B2 = {}" by fact
      fix h' r' v' B'
      assume r': "rep h' r' v' B'" and dj: "B' \<inter> B2 = {}"
        and fr: "\<forall>a\<in>B2. cell_at h' (RRef a) = cell_at h (RRef a)"
      from rep_frame(3) [OF rest fr] have "repd h' kvs items' B2" .
      with r' dj have "repd h' ((key, r') # kvs) ((key, v') # items') (B' \<union> B2)"
        by (intro repd_Cons) auto
      with kv items True
      show "repd h' (AList.update key r' (kv # kvs)) (AList.update key v' items) (B' \<union> B2)"
        by simp
    qed
  next
    case False
    with Cons.prems(3) kv have look: "map_of kvs key = Some old" by simp
    show ?thesis
    proof (rule Cons.IH [OF _ rest look])
      fix ov Bo Br
      assume 1: "map_of items' key = Some ov" and 2: "rep h old ov Bo"
        and 3: "B2 = Bo \<union> Br" and 4: "Bo \<inter> Br = {}"
        and 5: "\<And>h' r' v' B'. rep h' r' v' B' \<Longrightarrow> B' \<inter> Br = {} \<Longrightarrow>
           (\<forall>a\<in>Br. cell_at h' (RRef a) = cell_at h (RRef a)) \<Longrightarrow>
           repd h' (AList.update key r' kvs) (AList.update key v' items') (B' \<union> Br)"
      show thesis
      proof (rule Cons.prems(1) [of ov Bo "B1 \<union> Br"])
        show "map_of items key = Some ov" using items False 1 by simp
        show "rep h old ov Bo" by fact
        show "B = Bo \<union> (B1 \<union> Br)" using B 3 by auto
        show "Bo \<inter> (B1 \<union> Br) = {}" using 3 4 d by auto
        fix h' r' v' B'
        assume r': "rep h' r' v' B'" and dj: "B' \<inter> (B1 \<union> Br) = {}"
          and fr: "\<forall>a\<in>B1 \<union> Br. cell_at h' (RRef a) = cell_at h (RRef a)"
        from 5 [OF r'] dj fr
        have "repd h' (AList.update key r' kvs) (AList.update key v' items') (B' \<union> Br)"
          by auto
        moreover from rep_frame(1) [OF r0, of h'] fr have "rep h' r0 v0 B1" by auto
        ultimately have "repd h' ((k, r0) # AList.update key r' kvs)
            ((k, v0) # AList.update key v' items') (B1 \<union> (B' \<union> Br))"
          using d dj 3 by (intro repd_Cons) auto
        moreover have "B1 \<union> (B' \<union> Br) = B' \<union> (B1 \<union> Br)" by auto
        ultimately
        show "repd h' (AList.update key r' (kv # kvs)) (AList.update key v' items)
            (B' \<union> (B1 \<union> Br))"
          using kv items False by simp
      qed
    qed
  qed
qed

subsection \<open>The accumulator \<^verbatim>\<open>merged\<close>\<close>

text \<open>
  \<open>accum h m M B\<close>: the cell \<open>m\<close> is a dict standing for the value-level
  accumulator \<open>M\<close>, whose values are held in the cells \<open>B\<close>. \<open>post\<close> is what a
  loop of the merge leaves behind: the accumulator stands for the value-level
  result, its values are held in cells of the old accumulator, of the merged
  input or in new cells, and no other old cell has changed.
\<close>

definition accum :: "store \<Rightarrow> addr \<Rightarrow> pydict \<Rightarrow> addr set \<Rightarrow> bool" where
  "accum h m M B \<longleftrightarrow> (\<exists>mk. cell_at h (RRef m) = Some (CDict mk) \<and> repd h mk M B) \<and> m \<notin> B"

lemma cell_at_Some_lt: "cell_at h (RRef a) = Some c \<Longrightarrow> a < length h"
  by (simp add: cell_at_def split: if_splits)

lemma items_at_cell: "cell_at h r = Some (CDict kvs) \<Longrightarrow> items_at h r = Some kvs"
  by (simp add: items_at_def)

lemma elems_at_cell: "cell_at h r = Some (CList xs) \<Longrightarrow> elems_at h r = Some xs"
  by (simp add: elems_at_def)

lemma setitem_cell:
  "cell_at h (RRef m) = Some (CDict mk) \<Longrightarrow>
     setitem h (RRef m) key r = Some (h[m := CDict (AList.update key r mk)])"
  by (simp add: setitem_def items_at_def)

lemma extend_cells:
  "cell_at h (RRef a) = Some (CList xs) \<Longrightarrow> cell_at h r = Some (CList ys) \<Longrightarrow>
     extend h (RRef a) r = Some (h[a := CList (xs @ ys)])"
  by (simp add: extend_def elems_at_def)

lemma acc_update:
  assumes "m < length h" and "repd h kvs M B" and "m \<notin> B"
  shows "accum (h[m := CDict kvs]) m M B"
proof -
  from assms(1) have "frame h (h[m := CDict kvs]) {m}" by (simp add: frame_update)
  from frame_repd [OF this assms(2)] assms(3)
  have "repd (h[m := CDict kvs]) kvs M B" by simp
  with assms(1,3) show ?thesis
    by (auto simp: accum_def cell_at_update_same)
qed

lemma acc_rep: "accum h m M B \<Longrightarrow> rep h (RRef m) (PDict M) (insert m B)"
  by (auto simp: accum_def intro: rep_Dict)

lemma acc_lt: "accum h m M B \<Longrightarrow> m < length h"
  by (auto simp: accum_def dest: cell_at_Some_lt)

lemma rep_dictE:
  assumes "rep h r v A" and "isinstance_dict v"
  obtains a kvs Ad where "r = RRef a" and "v = PDict (dict_items v)"
    and "cell_at h (RRef a) = Some (CDict kvs)" and "repd h kvs (dict_items v) Ad"
    and "a \<notin> Ad" and "A = insert a Ad"
  using assms by (cases v) (auto elim!: rep_PDictE)

lemma rep_listE:
  assumes "rep h r v A" and "isinstance_list v"
  obtains a xs Ax where "r = RRef a" and "v = PList (list_elems v)"
    and "cell_at h (RRef a) = Some (CList xs)" and "reps h xs (list_elems v) Ax"
    and "a \<notin> Ax" and "A = insert a Ax"
  using assms by (cases v) (auto elim!: rep_PListE)

definition post :: "store \<Rightarrow> store \<Rightarrow> addr \<Rightarrow> pydict \<Rightarrow> addr set \<Rightarrow> addr set \<Rightarrow> bool" where
  "post h h' m M' B A \<longleftrightarrow>
     (\<exists>B'. accum h' m M' B' \<and> B' \<subseteq> B \<union> A \<union> {length h..<length h'})
     \<and> frame h h' (insert m (B \<union> A))"

subsection \<open>The loop body\<close>

definition merge_spec :: "pydict list \<Rightarrow> bool" where
  "merge_spec dl \<longleftrightarrow>
     (\<forall>h rs A. reps h rs (map PDict dl) A \<longrightarrow>
        (\<exists>fuel h' B'. st_merge_nested_dicts fuel rs h = Some (RRef (length h), h')
           \<and> accum h' (length h) (merge_nested_dicts dl) B'
           \<and> B' \<subseteq> A \<union> {length h..<length h'}
           \<and> frame h h' A))"

definition dicts_spec :: "pydict \<Rightarrow> pydict list \<Rightarrow> bool" where
  "dicts_spec M ds \<longleftrightarrow>
     (\<forall>h m B rs A. accum h m M B \<longrightarrow> reps h rs (map PDict ds) A \<longrightarrow> A \<inter> insert m B = {} \<longrightarrow>
        (\<exists>fuel h'. st_merge_dicts fuel (RRef m) rs h = Some h'
           \<and> post h h' m (merge_dicts M ds) B A))"

definition items_spec :: "pydict \<Rightarrow> pydict \<Rightarrow> bool" where
  "items_spec M kvs \<longleftrightarrow>
     (\<forall>h m B rkvs A. accum h m M B \<longrightarrow> repd h rkvs kvs A \<longrightarrow> A \<inter> insert m B = {} \<longrightarrow>
        (\<exists>fuel h'. st_merge_items fuel (RRef m) rkvs h = Some h'
           \<and> post h h' m (merge_items M kvs) B A))"

definition entry_spec :: "pydict \<Rightarrow> string \<Rightarrow> pyval \<Rightarrow> bool" where
  "entry_spec M key v \<longleftrightarrow>
     (\<forall>h m B val A. accum h m M B \<longrightarrow> rep h val v A \<longrightarrow> A \<inter> insert m B = {} \<longrightarrow>
        (\<exists>fuel h'. st_merge_entry fuel (RRef m) key val h = Some h'
           \<and> post h h' m (merge_entry M key v) B A))"

lemma entry_absent:
  assumes cell: "cell_at h (RRef m) = Some (CDict mk)" and mk: "repd h mk M B" and m: "m \<notin> B"
    and val: "rep h val v A" and dj: "A \<inter> insert m B = {}"
    and none: "map_of mk key = None"
  shows "\<exists>fuel h'. st_merge_entry fuel (RRef m) key val h = Some h'
           \<and> post h h' m (merge_entry M key v) B A"
proof -
  let ?h' = "h[m := CDict (AList.update key val mk)]"
  from cell have lt: "m < length h" by (rule cell_at_Some_lt)
  from none mk have noneM: "map_of M key = None" by (simp add: repd_lookup_None)
  from dj have "A \<inter> B = {}" and mA: "m \<notin> A" by auto
  with repd_insert [OF mk none val]
  have "repd h (AList.update key val mk) (AList.update key v M) (B \<union> A)" by simp
  from acc_update [OF lt this] m mA
  have "accum ?h' m (AList.update key v M) (B \<union> A)" by simp
  moreover from lt have "frame h ?h' (insert m (B \<union> A))" by (simp add: frame_update)
  ultimately have "post h ?h' m (merge_entry M key v) B A"
    using noneM by (auto simp: post_def merge_entry.simps)
  moreover have "st_merge_entry 0 (RRef m) key val h = Some ?h'"
    using cell none by (simp add: st_merge_entry.simps items_at_cell setitem_cell)
  ultimately show ?thesis by blast
qed


lemma entry_keep:
  assumes cell: "cell_at h (RRef m) = Some (CDict mk)" and mk: "repd h mk M B" and m: "m \<notin> B"
    and val: "rep h val v A"
    and look: "map_of mk key = Some old" and lookM: "map_of M key = Some ov"
    and old: "rep h old ov Bo"
    and nd: "\<not> (isinstance_dict ov \<and> isinstance_dict v)"
    and nl: "\<not> (isinstance_list ov \<and> isinstance_list v)"
    and eq: "isinstance_list ov = isinstance_list v"
  shows "\<exists>fuel h'. st_merge_entry fuel (RRef m) key val h = Some h'
           \<and> post h h' m (merge_entry M key v) B A"
proof -
  from nd nl eq lookM have "merge_entry M key v = M"
    by (auto simp: merge_entry.simps)
  moreover from cell mk m have "accum h m M B" by (auto simp: accum_def)
  ultimately have "post h h m (merge_entry M key v) B A"
    by (auto simp: post_def frame_refl)
  moreover have "st_merge_entry 0 (RRef m) key val h = Some h"
    using cell look nd nl eq
    by (auto simp: st_merge_entry.simps items_at_cell
        rep_isinstance_dict [OF old] rep_isinstance_dict [OF val]
        rep_isinstance_list [OF old] rep_isinstance_list [OF val])
  ultimately show ?thesis by blast
qed

lemma entry_mixed:
  assumes cell: "cell_at h (RRef m) = Some (CDict mk)" and mk: "repd h mk M B" and m: "m \<notin> B"
    and val: "rep h val v A"
    and look: "map_of mk key = Some old" and lookM: "map_of M key = Some ov"
    and old: "rep h old ov Bo" and B: "B = Bo \<union> Br"
    and ctx: "\<And>h' r' v' B'. rep h' r' v' B' \<Longrightarrow> B' \<inter> Br = {} \<Longrightarrow>
           (\<forall>a\<in>Br. cell_at h' (RRef a) = cell_at h (RRef a)) \<Longrightarrow>
           repd h' (AList.update key r' mk) (AList.update key v' M) (B' \<union> Br)"
    and nd: "\<not> (isinstance_dict ov \<and> isinstance_dict v)"
    and nl: "\<not> (isinstance_list ov \<and> isinstance_list v)"
    and ne: "isinstance_list ov \<noteq> isinstance_list v"
  shows "\<exists>fuel h'. st_merge_entry fuel (RRef m) key val h = Some h'
           \<and> post h h' m (merge_entry M key v) B A"
proof -
  let ?h' = "h[m := CDict (AList.update key RMixed mk)]"
  from cell have lt: "m < length h" by (rule cell_at_Some_lt)
  from nd nl ne lookM have me: "merge_entry M key v = AList.update key PMixed M"
    by (auto simp: merge_entry.simps)
  from ctx [OF rep_Mixed, of h]
  have "repd h (AList.update key RMixed mk) (AList.update key PMixed M) Br" by simp
  from acc_update [OF lt this] m B
  have "accum ?h' m (AList.update key PMixed M) Br" by simp
  moreover from lt have "frame h ?h' (insert m (B \<union> A))" by (simp add: frame_update)
  ultimately have "post h ?h' m (merge_entry M key v) B A"
    using B me by (auto simp: post_def)
  moreover have "st_merge_entry 0 (RRef m) key val h = Some ?h'"
    using cell look nd nl ne
    by (auto simp: st_merge_entry.simps items_at_cell setitem_cell
        rep_isinstance_dict [OF old] rep_isinstance_dict [OF val]
        rep_isinstance_list [OF old] rep_isinstance_list [OF val])
  ultimately show ?thesis by blast
qed


lemma cell_at_update_other:
  "x \<noteq> a \<Longrightarrow> cell_at (h[a := c]) (RRef x) = cell_at h (RRef x)"
  by (simp add: cell_at_def)

lemma cells_update_other:
  "a \<notin> S \<Longrightarrow> \<forall>x\<in>S. cell_at (h[a := c]) (RRef x) = cell_at h (RRef x)"
  by (metis cell_at_update_other)

lemma entry_lists:
  assumes cell: "cell_at h (RRef m) = Some (CDict mk)" and mk: "repd h mk M B" and m: "m \<notin> B"
    and val: "rep h val v A" and dj: "A \<inter> insert m B = {}"
    and look: "map_of mk key = Some old" and lookM: "map_of M key = Some ov"
    and old: "rep h old ov Bo" and B: "B = Bo \<union> Br" and BoBr: "Bo \<inter> Br = {}"
    and ctx: "\<And>h' r' v' B'. rep h' r' v' B' \<Longrightarrow> B' \<inter> Br = {} \<Longrightarrow>
           (\<forall>a\<in>Br. cell_at h' (RRef a) = cell_at h (RRef a)) \<Longrightarrow>
           repd h' (AList.update key r' mk) (AList.update key v' M) (B' \<union> Br)"
    and nd: "\<not> (isinstance_dict ov \<and> isinstance_dict v)"
    and ll: "isinstance_list ov \<and> isinstance_list v"
  shows "\<exists>fuel h'. st_merge_entry fuel (RRef m) key val h = Some h'
           \<and> post h h' m (merge_entry M key v) B A"
proof -
  from ll have lo: "isinstance_list ov" and lv: "isinstance_list v" by simp_all
  from rep_listE [OF old lo] obtain a xs Bx where olda: "old = RRef a"
    and ca: "cell_at h (RRef a) = Some (CList xs)" and xs: "reps h xs (list_elems ov) Bx"
    and aBx: "a \<notin> Bx" and Bo: "Bo = insert a Bx" by metis
  from rep_listE [OF val lv] obtain b ys Ay where valb: "val = RRef b"
    and cb: "cell_at h (RRef b) = Some (CList ys)" and ys: "reps h ys (list_elems v) Ay"
    and bAy: "b \<notin> Ay" and A: "A = insert b Ay" by metis
  let ?h' = "h[a := CList (xs @ ys)]"
  let ?B' = "insert a (Bx \<union> Ay)"
  from ca have lta: "a < length h" by (rule cell_at_Some_lt)
  from cell have ltm: "m < length h" by (rule cell_at_Some_lt)
  from B Bo have aB: "a \<in> B" by simp
  with m have am: "a \<noteq> m" by auto
  from dj A B Bo have d1: "Bx \<inter> Ay = {}" and aAy: "a \<notin> Ay" by auto
  from BoBr Bo have aBr: "a \<notin> Br" and BxBr: "Bx \<inter> Br = {}" by auto
  from dj A B have AyBr: "Ay \<inter> Br = {}" by auto
  have fr: "frame h ?h' {a}" using lta by (simp add: frame_update)
  from reps_append [OF xs ys d1]
  have "reps h (xs @ ys) (list_elems ov @ list_elems v) (Bx \<union> Ay)" .
  from frame_reps [OF fr this] aBx aAy
  have "reps ?h' (xs @ ys) (list_elems ov @ list_elems v) (Bx \<union> Ay)" by simp
  moreover have "cell_at ?h' (RRef a) = Some (CList (xs @ ys))"
    using lta by (rule cell_at_update_same)
  ultimately have r': "rep ?h' (RRef a) (PList (list_elems ov @ list_elems v)) ?B'"
    using aBx aAy by (intro rep_List) auto
  have cells: "\<forall>x\<in>Br. cell_at ?h' (RRef x) = cell_at h (RRef x)"
    using aBr by (rule cells_update_other)
  from ctx [OF r' _ cells] BxBr AyBr aBr
  have "repd ?h' (AList.update key (RRef a) mk)
      (AList.update key (PList (list_elems ov @ list_elems v)) M) (?B' \<union> Br)"
    by auto
  with look olda
  have rd: "repd ?h' mk (AList.update key (PList (list_elems ov @ list_elems v)) M) (?B' \<union> Br)"
    by (simp add: update_same)
  have cm: "cell_at ?h' (RRef m) = Some (CDict mk)"
    using cell am by (simp add: cell_at_update_other)
  from dj A have "m \<notin> Ay" by auto
  with m B Bo have "m \<notin> ?B' \<union> Br" using am by auto
  with rd cm have "accum ?h' m (AList.update key (PList (list_elems ov @ list_elems v)) M) (?B' \<union> Br)"
    by (auto simp: accum_def)
  moreover from nd ll lookM
  have "merge_entry M key v = AList.update key (PList (list_elems ov @ list_elems v)) M"
    by (auto simp: merge_entry.simps)
  moreover have "?B' \<union> Br \<subseteq> B \<union> A \<union> {length h..<length ?h'}"
    using B Bo A by auto
  moreover from fr aB have "frame h ?h' (insert m (B \<union> A))"
    by (auto intro: frame_mono)
  ultimately have "post h ?h' m (merge_entry M key v) B A"
    by (auto simp: post_def)
  moreover have "st_merge_entry 0 (RRef m) key val h = Some ?h'"
  proof -
    have "st_merge_entry 0 (RRef m) key val h = extend h old val"
      using cell look nd ll
      by (auto simp: st_merge_entry.simps items_at_cell
          rep_isinstance_dict [OF old] rep_isinstance_dict [OF val]
          rep_isinstance_list [OF old] rep_isinstance_list [OF val])
    also have "\<dots> = Some ?h'"
      using olda valb ca cb by (simp add: extend_cells)
    finally show ?thesis .
  qed
  ultimately show ?thesis by blast
qed

lemma fresh_disjoint:
  fixes n :: nat
  assumes "BN \<subseteq> X \<union> {n..<k}" and "Br \<subseteq> {..<n}" and "X \<inter> Br = {}"
  shows "insert n BN \<inter> Br = {}"
proof -
  have "x \<notin> Br" if "x \<in> insert n BN" for x
  proof (cases "x \<in> X")
    case True
    with assms(3) show ?thesis by auto
  next
    case False
    with that assms(1) have "n \<le> x" by auto
    with assms(2) show ?thesis by auto
  qed
  then show ?thesis by auto
qed

lemma fresh_notin:
  fixes n m :: nat
  assumes "BN \<subseteq> X \<union> {n..<k}" and "m < n" and "m \<notin> X"
  shows "m \<notin> insert n BN"
  using assms by auto

lemma fresh_subset:
  fixes n :: nat
  assumes "BN \<subseteq> Bo \<union> A \<union> {n..<k}" and "n < k"
  shows "insert n BN \<union> Br \<subseteq> (Bo \<union> Br) \<union> A \<union> {n..<k}"
  using assms by auto


lemma entry_dicts:
  assumes cell: "cell_at h (RRef m) = Some (CDict mk)" and mk: "repd h mk M B" and m: "m \<notin> B"
    and val: "rep h val v A" and dj: "A \<inter> insert m B = {}"
    and look: "map_of mk key = Some old" and lookM: "map_of M key = Some ov"
    and old: "rep h old ov Bo" and B: "B = Bo \<union> Br" and BoBr: "Bo \<inter> Br = {}"
    and ctx: "\<And>h' r' v' B'. rep h' r' v' B' \<Longrightarrow> B' \<inter> Br = {} \<Longrightarrow>
           (\<forall>a\<in>Br. cell_at h' (RRef a) = cell_at h (RRef a)) \<Longrightarrow>
           repd h' (AList.update key r' mk) (AList.update key v' M) (B' \<union> Br)"
    and dd: "isinstance_dict ov \<and> isinstance_dict v"
    and IH: "merge_spec [dict_items ov, dict_items v]"
  shows "\<exists>fuel h'. st_merge_entry fuel (RRef m) key val h = Some h'
           \<and> post h h' m (merge_entry M key v) B A"
proof -
  let ?dl = "[dict_items ov, dict_items v]"
  let ?n = "length h"
  from dd have ovd: "ov = PDict (dict_items ov)" by (cases ov) simp_all
  from dd have vd: "v = PDict (dict_items v)" by (cases v) simp_all
  from cell have ltm: "m < ?n" by (rule cell_at_Some_lt)
  from dj B have BoA: "Bo \<inter> A = {}" and mA: "m \<notin> A" and ABr: "A \<inter> Br = {}" by auto
  from m B have mBo: "m \<notin> Bo" and mBr: "m \<notin> Br" by auto
  have bBo: "Bo \<subseteq> {..<?n}" using rep_bounded(1) [OF old] .
  have bA: "A \<subseteq> {..<?n}" using rep_bounded(1) [OF val] .
  have bB: "B \<subseteq> {..<?n}" using rep_bounded(3) [OF mk] .
  have rv: "reps h [val] [v] (A \<union> {})"
    by (rule reps_Cons [OF val reps_Nil]) simp
  have "reps h [old, val] [ov, v] (Bo \<union> (A \<union> {}))"
    by (rule reps_Cons [OF old rv]) (use BoA in simp)
  with ovd vd have "reps h [old, val] (map PDict ?dl) (Bo \<union> A)" by simp
  with IH obtain fuel hN BN where
    run: "st_merge_nested_dicts fuel [old, val] h = Some (RRef ?n, hN)"
    and accN: "accum hN ?n (merge_nested_dicts ?dl) BN"
    and BN: "BN \<subseteq> Bo \<union> A \<union> {?n..<length hN}"
    and frN: "frame h hN (Bo \<union> A)"
    unfolding merge_spec_def by blast
  let ?r = "RRef ?n"
  let ?v' = "PDict (merge_nested_dicts ?dl)"
  let ?kvs = "AList.update key ?r mk"
  let ?h' = "hN[m := CDict ?kvs]"
  let ?B' = "insert ?n BN \<union> Br"
  from frN have len: "?n \<le> length hN" by (simp add: frame_def)
  with ltm have ltmN: "m < length hN" by simp
  have cellN: "cell_at hN (RRef m) = Some (CDict mk)"
    using frame_cell_at [OF frN ltm] mBo mA cell by simp
  have r': "rep hN ?r ?v' (insert ?n BN)" using accN by (rule acc_rep)
  from bB B have bBr: "Br \<subseteq> {..<?n}" by auto
  have djBr: "insert ?n BN \<inter> Br = {}"
    using BN bBr by (rule fresh_disjoint) (use BoBr ABr in auto)
  have "(Bo \<union> A) \<inter> Br = {}" using BoBr ABr by auto
  from frame_cells [OF frN bBr this]
  have cells: "\<forall>a\<in>Br. cell_at hN (RRef a) = cell_at h (RRef a)" .
  from ctx [OF r' djBr cells]
  have rd: "repd hN ?kvs (AList.update key ?v' M) ?B'" .
  have "m \<notin> insert ?n BN"
    using BN ltm by (rule fresh_notin) (use mBo mA in simp)
  with mBr have mB': "m \<notin> ?B'" by simp
  from acc_update [OF ltmN rd mB']
  have "accum ?h' m (AList.update key ?v' M) ?B'" .
  moreover from dd lookM have "merge_entry M key v = AList.update key ?v' M"
    by (simp add: merge_entry.simps)
  moreover have "?n < length hN" using accN by (rule acc_lt)
  with BN have "?B' \<subseteq> (Bo \<union> Br) \<union> A \<union> {?n..<length hN}"
    by (rule fresh_subset)
  then have "?B' \<subseteq> B \<union> A \<union> {?n..<length ?h'}"
    using B by simp
  moreover have "frame h ?h' (insert m (B \<union> A))"
  proof (rule frame_trans)
    show "frame h hN (insert m (B \<union> A))"
      using frN B by (auto intro: frame_mono)
    show "frame hN ?h' {m}" using ltmN by (simp add: frame_update)
    show "{m} \<inter> {..<?n} \<subseteq> insert m (B \<union> A)" by auto
  qed
  ultimately have "post h ?h' m (merge_entry M key v) B A"
    by (auto simp: post_def)
  moreover have "st_merge_entry (Suc fuel) (RRef m) key val h = Some ?h'"
  proof -
    have "st_merge_entry (Suc fuel) (RRef m) key val h = setitem hN (RRef m) key ?r"
      using cell look dd run
      by (simp add: st_merge_entry.simps items_at_cell
          rep_isinstance_dict [OF old] rep_isinstance_dict [OF val])
    also have "\<dots> = Some ?h'" using cellN by (rule setitem_cell)
    finally show ?thesis .
  qed
  ultimately show ?thesis by blast
qed

subsection \<open>The loops and the merge\<close>

lemma postE:
  assumes "post h h' m M' B A"
  obtains B' where "accum h' m M' B'" and "B' \<subseteq> B \<union> A \<union> {length h..<length h'}"
    and "frame h h' (insert m (B \<union> A))"
  using assms unfolding post_def by blast

lemma post_compose:
  assumes B1: "B1 \<subseteq> B \<union> A1 \<union> {length h..<length h1}"
    and fr1: "frame h h1 (insert m (B \<union> A1))"
    and p2: "post h1 h2 m M2 B1 A2"
  shows "post h h2 m M2 B (A1 \<union> A2)"
proof -
  from p2 obtain B2 where acc2: "accum h2 m M2 B2"
    and B2: "B2 \<subseteq> B1 \<union> A2 \<union> {length h1..<length h2}"
    and fr2: "frame h1 h2 (insert m (B1 \<union> A2))"
    by (rule postE)
  from fr1 have l1: "length h \<le> length h1" by (simp add: frame_def)
  from fr2 have l2: "length h1 \<le> length h2" by (simp add: frame_def)
  have "B2 \<subseteq> B \<union> (A1 \<union> A2) \<union> {length h..<length h2}"
  proof
    fix x assume "x \<in> B2"
    with B2 consider "x \<in> B1" | "x \<in> A2" | "x \<in> {length h1..<length h2}" by auto
    then show "x \<in> B \<union> (A1 \<union> A2) \<union> {length h..<length h2}"
    proof cases
      case 1
      with B1 have "x \<in> B \<union> A1 \<or> x \<in> {length h..<length h1}" by auto
      with l2 show ?thesis by auto
    next
      case 2
      then show ?thesis by simp
    next
      case 3
      with l1 show ?thesis by auto
    qed
  qed
  moreover have "frame h h2 (insert m (B \<union> (A1 \<union> A2)))"
  proof (rule frame_trans)
    show "frame h h1 (insert m (B \<union> (A1 \<union> A2)))"
      using fr1 by (rule frame_mono) auto
    show "frame h1 h2 (insert m (B1 \<union> A2))" by fact
    show "insert m (B1 \<union> A2) \<inter> {..<length h} \<subseteq> insert m (B \<union> (A1 \<union> A2))"
    proof
      fix x assume x: "x \<in> insert m (B1 \<union> A2) \<inter> {..<length h}"
      then have lt: "x < length h" by simp
      from x consider "x = m" | "x \<in> B1" | "x \<in> A2" by auto
      then show "x \<in> insert m (B \<union> (A1 \<union> A2))"
      proof cases
        case 2
        with B1 lt have "x \<in> B \<union> A1" by auto
        then show ?thesis by auto
      qed auto
    qed
  qed
  ultimately show ?thesis using acc2 unfolding post_def by blast
qed

lemma rest_disjoint:
  fixes h :: store
  assumes B1: "B1 \<subseteq> B \<union> A1 \<union> {length h..<length h1}"
    and A2: "A2 \<subseteq> {..<length h}" and d1: "A1 \<inter> A2 = {}" and d2: "A2 \<inter> insert m B = {}"
  shows "A2 \<inter> insert m B1 = {}"
proof -
  have "x \<notin> insert m B1" if "x \<in> A2" for x
  proof -
    from that A2 have "x < length h" by auto
    moreover from that d1 d2 have "x \<noteq> m" "x \<notin> B" "x \<notin> A1" by auto
    ultimately show ?thesis using B1 by auto
  qed
  then show ?thesis by auto
qed

lemma items_nil: "items_spec M []"
  unfolding items_spec_def
proof (intro allI impI)
  fix h m B rkvs A
  assume acc: "accum h m M B" and rd: "repd h rkvs [] A"
  from rd have "rkvs = []" by (auto elim: repd_Nil2E)
  moreover from acc have "post h h m (merge_items M []) B A"
    by (auto simp: post_def frame_refl)
  ultimately show "\<exists>fuel h'. st_merge_items fuel (RRef m) rkvs h = Some h'
      \<and> post h h' m (merge_items M []) B A"
    by auto
qed

lemma items_step:
  assumes E: "entry_spec M key v" and R: "items_spec (merge_entry M key v) kvs"
  shows "items_spec M ((key, v) # kvs)"
  unfolding items_spec_def
proof (intro allI impI)
  fix h m B rkvs A
  assume acc: "accum h m M B" and rd: "repd h rkvs ((key, v) # kvs) A"
    and dj: "A \<inter> insert m B = {}"
  from rd obtain r rkvs' A1 A2 where rk: "rkvs = (key, r) # rkvs'"
    and r: "rep h r v A1" and rest: "repd h rkvs' kvs A2"
    and d: "A1 \<inter> A2 = {}" and A: "A = A1 \<union> A2"
    by (auto elim: repd_Cons2E)
  from dj A have dj1: "A1 \<inter> insert m B = {}" and dj2: "A2 \<inter> insert m B = {}" by auto
  from E acc r dj1 obtain fuel1 h1 where
    run1: "st_merge_entry fuel1 (RRef m) key r h = Some h1"
    and p1: "post h h1 m (merge_entry M key v) B A1"
    unfolding entry_spec_def by blast
  from p1 obtain B1 where acc1: "accum h1 m (merge_entry M key v) B1"
    and B1: "B1 \<subseteq> B \<union> A1 \<union> {length h..<length h1}"
    and fr1: "frame h h1 (insert m (B \<union> A1))"
    by (rule postE)
  have "insert m (B \<union> A1) \<inter> A2 = {}" using d dj2 by auto
  from frame_repd [OF fr1 rest this] have rest1: "repd h1 rkvs' kvs A2" .
  have dj': "A2 \<inter> insert m B1 = {}"
    using B1 rep_bounded(3) [OF rest] d dj2 by (rule rest_disjoint)
  from R acc1 rest1 dj' obtain fuel2 h2 where
    run2: "st_merge_items fuel2 (RRef m) rkvs' h1 = Some h2"
    and p2: "post h1 h2 m (merge_items (merge_entry M key v) kvs) B1 A2"
    unfolding items_spec_def by blast
  from post_compose [OF B1 fr1 p2] A
  have "post h h2 m (merge_items M ((key, v) # kvs)) B A" by simp
  moreover have "st_merge_items (max fuel1 fuel2) (RRef m) rkvs h = Some h2"
  proof -
    from st_merge_mono(4) [rule_format, OF run1, of "max fuel1 fuel2"]
    have "st_merge_entry (max fuel1 fuel2) (RRef m) key r h = Some h1" by simp
    moreover from st_merge_mono(3) [rule_format, OF run2, of "max fuel1 fuel2"]
    have "st_merge_items (max fuel1 fuel2) (RRef m) rkvs' h1 = Some h2" by simp
    ultimately show ?thesis using rk by simp
  qed
  ultimately show "\<exists>fuel h'. st_merge_items fuel (RRef m) rkvs h = Some h'
      \<and> post h h' m (merge_items M ((key, v) # kvs)) B A"
    by blast
qed

lemma dicts_nil: "dicts_spec M []"
  unfolding dicts_spec_def
proof (intro allI impI)
  fix h m B rs A
  assume acc: "accum h m M B" and rd: "reps h rs (map PDict []) A"
  from rd have "rs = []" by (auto elim: reps_Nil2E)
  moreover from acc have "post h h m (merge_dicts M []) B A"
    by (auto simp: post_def frame_refl)
  ultimately show "\<exists>fuel h'. st_merge_dicts fuel (RRef m) rs h = Some h'
      \<and> post h h' m (merge_dicts M []) B A"
    by auto
qed

lemma dicts_step:
  assumes I: "items_spec M d" and D: "dicts_spec (merge_items M d) ds"
  shows "dicts_spec M (d # ds)"
  unfolding dicts_spec_def
proof (intro allI impI)
  fix h m B rs A
  assume acc: "accum h m M B" and rd: "reps h rs (map PDict (d # ds)) A"
    and dj: "A \<inter> insert m B = {}"
  from rd obtain r rs' A1 A2 where rk: "rs = r # rs'"
    and r: "rep h r (PDict d) A1" and rest: "reps h rs' (map PDict ds) A2"
    and dd: "A1 \<inter> A2 = {}" and A: "A = A1 \<union> A2"
    by (auto elim: reps_Cons2E)
  from r obtain a kvs Ad where ra: "r = RRef a"
    and cell: "cell_at h (RRef a) = Some (CDict kvs)" and kvs: "repd h kvs d Ad"
    and A1: "A1 = insert a Ad"
    by (auto elim: rep_PDictE)
  from dj A A1 have dj1: "Ad \<inter> insert m B = {}" and dj2: "A2 \<inter> insert m B = {}" by auto
  from I acc kvs dj1 obtain fuel1 h1 where
    run1: "st_merge_items fuel1 (RRef m) kvs h = Some h1"
    and p1: "post h h1 m (merge_items M d) B Ad"
    unfolding items_spec_def by blast
  from p1 obtain B1 where acc1: "accum h1 m (merge_items M d) B1"
    and B1: "B1 \<subseteq> B \<union> Ad \<union> {length h..<length h1}"
    and fr1: "frame h h1 (insert m (B \<union> Ad))"
    by (rule postE)
  from dd A1 have dAd: "Ad \<inter> A2 = {}" by auto
  have "insert m (B \<union> Ad) \<inter> A2 = {}" using dAd dj2 by auto
  from frame_reps [OF fr1 rest this] have rest1: "reps h1 rs' (map PDict ds) A2" .
  have dj': "A2 \<inter> insert m B1 = {}"
    using B1 rep_bounded(2) [OF rest] dAd dj2 by (rule rest_disjoint)
  from D acc1 rest1 dj' obtain fuel2 h2 where
    run2: "st_merge_dicts fuel2 (RRef m) rs' h1 = Some h2"
    and p2: "post h1 h2 m (merge_dicts (merge_items M d) ds) B1 A2"
    unfolding dicts_spec_def by blast
  from post_compose [OF B1 fr1 p2]
  have "post h h2 m (merge_dicts M (d # ds)) B (Ad \<union> A2)" by simp
  then obtain B2 where acc2: "accum h2 m (merge_dicts M (d # ds)) B2"
    and B2: "B2 \<subseteq> B \<union> (Ad \<union> A2) \<union> {length h..<length h2}"
    and fr2: "frame h h2 (insert m (B \<union> (Ad \<union> A2)))"
    by (rule postE)
  from B2 A A1 have "B2 \<subseteq> B \<union> A \<union> {length h..<length h2}" by auto
  moreover from fr2 have "frame h h2 (insert m (B \<union> A))"
    by (rule frame_mono) (use A A1 in auto)
  ultimately have "post h h2 m (merge_dicts M (d # ds)) B A"
    using acc2 unfolding post_def by blast
  moreover have "st_merge_dicts (max fuel1 fuel2) (RRef m) rs h = Some h2"
  proof -
    from st_merge_mono(3) [rule_format, OF run1, of "max fuel1 fuel2"]
    have "st_merge_items (max fuel1 fuel2) (RRef m) kvs h = Some h1" by simp
    moreover from st_merge_mono(2) [rule_format, OF run2, of "max fuel1 fuel2"]
    have "st_merge_dicts (max fuel1 fuel2) (RRef m) rs' h1 = Some h2" by simp
    ultimately show ?thesis using rk ra cell by (simp add: items_at_cell)
  qed
  ultimately show "\<exists>fuel h'. st_merge_dicts fuel (RRef m) rs h = Some h'
      \<and> post h h' m (merge_dicts M (d # ds)) B A"
    by blast
qed

lemma frame_append: "frame h (h @ [c]) A"
  by (simp add: frame_def nth_append)

lemma merge_spec_from_dicts:
  assumes D: "dicts_spec [] dl"
  shows "merge_spec dl"
  unfolding merge_spec_def
proof (intro allI impI)
  fix h rs A
  assume rd: "reps h rs (map PDict dl) A"
  let ?n = "length h"
  let ?h1 = "h @ [CDict []]"
  have bA: "A \<subseteq> {..<?n}" using rep_bounded(2) [OF rd] .
  have fr0: "frame h ?h1 {}" by (rule frame_append)
  from frame_reps [OF fr0 rd] have rd1: "reps ?h1 rs (map PDict dl) A" by simp
  have "cell_at ?h1 (RRef ?n) = Some (CDict [])" by (simp add: cell_at_def)
  with repd_Nil [of ?h1] have acc0: "accum ?h1 ?n [] {}" by (auto simp: accum_def)
  from bA have dj: "A \<inter> insert ?n {} = {}" by auto
  from D acc0 rd1 dj obtain fuel h' where
    run: "st_merge_dicts fuel (RRef ?n) rs ?h1 = Some h'"
    and p: "post ?h1 h' ?n (merge_dicts [] dl) {} A"
    unfolding dicts_spec_def by blast
  from p obtain B' where acc': "accum h' ?n (merge_dicts [] dl) B'"
    and B': "B' \<subseteq> {} \<union> A \<union> {length ?h1..<length h'}"
    and fr: "frame ?h1 h' (insert ?n ({} \<union> A))"
    by (rule postE)
  have "frame h h' A"
  proof (rule frame_trans)
    show "frame h ?h1 A" by (rule frame_append)
    show "frame ?h1 h' (insert ?n ({} \<union> A))" by fact
    show "insert ?n ({} \<union> A) \<inter> {..<?n} \<subseteq> A" by auto
  qed
  moreover from B' have "B' \<subseteq> A \<union> {?n..<length h'}" by auto
  moreover from run have "st_merge_nested_dicts fuel rs h = Some (RRef ?n, h')"
    by (simp add: st_merge_nested_dicts.simps new_dict_def)
  moreover from acc' have "accum h' ?n (merge_nested_dicts dl) B'"
    by (simp add: merge_nested_dicts.simps)
  ultimately show "\<exists>fuel h' B'. st_merge_nested_dicts fuel rs h = Some (RRef ?n, h')
      \<and> accum h' ?n (merge_nested_dicts dl) B' \<and> B' \<subseteq> A \<union> {?n..<length h'} \<and> frame h h' A"
    by blast
qed

lemma entry_step:
  assumes IH: "\<And>ov. map_of M key = Some ov \<Longrightarrow> isinstance_dict ov \<and> isinstance_dict v \<Longrightarrow>
      merge_spec [dict_items ov, dict_items v]"
  shows "entry_spec M key v"
  unfolding entry_spec_def
proof (intro allI impI)
  fix h m B val A
  assume acc: "accum h m M B" and val: "rep h val v A" and dj: "A \<inter> insert m B = {}"
  from acc obtain mk where cell: "cell_at h (RRef m) = Some (CDict mk)"
    and mk: "repd h mk M B" and m: "m \<notin> B"
    by (auto simp: accum_def)
  show "\<exists>fuel h'. st_merge_entry fuel (RRef m) key val h = Some h'
      \<and> post h h' m (merge_entry M key v) B A"
  proof (cases "map_of mk key")
    case None
    from entry_absent [OF cell mk m val dj None] show ?thesis .
  next
    case (Some old)
    from repd_lookup_Some [OF mk Some] obtain ov Bo Br where
      lookM: "map_of M key = Some ov" and old: "rep h old ov Bo"
      and B: "B = Bo \<union> Br" and BoBr: "Bo \<inter> Br = {}"
      and ctx: "\<And>h' r' v' B'. rep h' r' v' B' \<Longrightarrow> B' \<inter> Br = {} \<Longrightarrow>
           (\<forall>a\<in>Br. cell_at h' (RRef a) = cell_at h (RRef a)) \<Longrightarrow>
           repd h' (AList.update key r' mk) (AList.update key v' M) (B' \<union> Br)"
      by blast
    consider (dicts) "isinstance_dict ov \<and> isinstance_dict v"
      | (lists) "\<not> (isinstance_dict ov \<and> isinstance_dict v)"
          "isinstance_list ov \<and> isinstance_list v"
      | (mixed) "\<not> (isinstance_dict ov \<and> isinstance_dict v)"
          "\<not> (isinstance_list ov \<and> isinstance_list v)"
          "isinstance_list ov \<noteq> isinstance_list v"
      | (keep) "\<not> (isinstance_dict ov \<and> isinstance_dict v)"
          "\<not> (isinstance_list ov \<and> isinstance_list v)"
          "isinstance_list ov = isinstance_list v"
      by blast
    then show ?thesis
    proof cases
      case dicts
      from entry_dicts [OF cell mk m val dj Some lookM old B BoBr ctx dicts IH [OF lookM dicts]]
      show ?thesis .
    next
      case lists
      from entry_lists [OF cell mk m val dj Some lookM old B BoBr ctx lists]
      show ?thesis .
    next
      case mixed
      from entry_mixed [OF cell mk m val Some lookM old B ctx mixed]
      show ?thesis .
    next
      case keep
      from entry_keep [OF cell mk m val Some lookM old keep]
      show ?thesis .
    qed
  qed
qed

lemma merge_refines:
  "merge_spec dl" "dicts_spec M ds" "items_spec M' kvs" "entry_spec M'' key v"
proof (induct dl and M ds and M' kvs and M'' key v
    rule: merge_nested_dicts_merge_dicts_merge_items_merge_entry.induct)
  case (1 dict_list)
  then show ?case by (rule merge_spec_from_dicts)
next
  case (2 merged)
  show ?case by (rule dicts_nil)
next
  case (3 merged d ds)
  then show ?case by (rule dicts_step)
next
  case (4 merged)
  show ?case by (rule items_nil)
next
  case (5 merged key val kvs)
  then show ?case by (rule items_step)
next
  case (6 merged key val)
  then show ?case by (rule entry_step)
qed

subsection \<open>The inference\<close>

definition mono_at :: "(nat \<Rightarrow> 'a option) \<Rightarrow> nat \<Rightarrow> bool" where
  "mono_at f fuel \<longleftrightarrow> (\<forall>r fuel2. f fuel = Some r \<longrightarrow> fuel \<le> fuel2 \<longrightarrow> f fuel2 = Some r)"

lemma mono_atD: "mono_at f fuel \<Longrightarrow> f fuel = Some r \<Longrightarrow> fuel \<le> fuel2 \<Longrightarrow> f fuel2 = Some r"
  unfolding mono_at_def by blast

lemma st_infer_mono:
  "mono_at (\<lambda>f. st_infer_schema f obj h) fuel"
  "mono_at (\<lambda>f. st_infer_list_schema f lst h1) fuel1"
  "mono_at (\<lambda>f. st_infer_dict_schema f kvs h2) fuel2"
proof (induct fuel obj h and fuel1 lst h1 and fuel2 kvs h2
    rule: st_infer_schema_st_infer_list_schema_st_infer_dict_schema.induct)
  case (1 fuel obj h)
  show ?case
    unfolding mono_at_def
  proof (intro allI impI)
    fix r g
    assume run: "st_infer_schema fuel obj h = Some r" and le: "fuel \<le> g"
    note eq = st_infer_schema.simps [of _ obj h]
    from run obtain f where f: "fuel = Suc f" by (cases fuel) (auto simp: eq)
    with le obtain g' where g: "g = Suc g'" and le': "f \<le> g'" by (cases g) auto
    show "st_infer_schema g obj h = Some r"
    proof (cases "st_isinstance_list h obj")
      case True
      with run f obtain lst where lst: "elems_at h obj = Some lst"
        and r: "st_infer_list_schema f lst h = Some r"
        by (auto simp: eq split: option.splits)
      from mono_atD [OF 1(1) [OF f True lst] r le']
      show ?thesis using True lst g by (simp add: eq)
    next
      case nl: False
      show ?thesis
      proof (cases "st_isinstance_dict h obj")
        case True
        with nl run f obtain kvs s h' where kvs: "items_at h obj = Some kvs"
          and d: "st_infer_dict_schema f kvs h = Some (s, h')" and r: "r = (SObject s, h')"
          by (auto simp: eq split: option.splits)
        from mono_atD [OF 1(2) [OF f nl True kvs] d le']
        show ?thesis using nl True kvs g r by (simp add: eq)
      next
        case False
        with nl run f g show ?thesis by (simp add: eq)
      qed
    qed
  qed
next
  case (2 fuel lst h)
  show ?case
    unfolding mono_at_def
  proof (intro allI impI)
    fix r g
    assume run: "st_infer_list_schema fuel lst h = Some r" and le: "fuel \<le> g"
    note eq = st_infer_list_schema.simps [of _ lst h]
    let ?types = "st_extract_unique_types h lst"
    show "st_infer_list_schema g lst h = Some r"
    proof (cases "lst = [] \<or> 1 < length ?types")
      case True
      with run show ?thesis by (auto simp: eq Let_def)
    next
      case False
      then have ne: "lst \<noteq> []" and n1: "\<not> 1 < length ?types" by auto
      from run ne n1 obtain t0 ts where ts: "?types = t0 # ts"
        by (cases ?types) (auto simp: eq Let_def)
      consider (d) "t0 = ''dict''" | (l) "t0 \<noteq> ''dict''" "t0 = ''list''"
        | (s) "t0 \<noteq> ''dict''" "t0 \<noteq> ''list''" by blast
      then show ?thesis
      proof cases
        case d
        with run ne n1 ts obtain merged h' kvs s h'' where
          m: "st_merge_nested_dicts fuel lst h = Some (merged, h')"
          and kvs: "items_at h' merged = Some kvs"
          and i: "st_infer_dict_schema fuel kvs h' = Some (s, h'')"
          and r: "r = (SArray [SObject s], h'')"
          by (auto simp: eq Let_def split: option.splits)
        from st_merge_mono(1) [rule_format, OF m le]
        have m': "st_merge_nested_dicts g lst h = Some (merged, h')" .
        from mono_atD [OF 2(1) [OF ne refl n1 ts d m refl kvs] i le]
        have "st_infer_dict_schema g kvs h' = Some (s, h'')" .
        with m' kvs ne n1 ts d r show ?thesis by (simp add: eq Let_def)
      next
        case l
        with run ne n1 ts obtain flat f s h' where
          c: "st_chain_from_iterable h lst = Some flat" and f: "fuel = Suc f"
          and i: "st_infer_list_schema f flat h = Some (s, h')"
          and r: "r = (SArray [s], h')"
          by (auto simp: eq Let_def split: option.splits nat.splits)
        from f le obtain g' where g: "g = Suc g'" and le': "f \<le> g'" by (cases g) auto
        from mono_atD [OF 2(2) [OF ne refl n1 ts l c f] i le']
        have "st_infer_list_schema g' flat h = Some (s, h')" .
        with c ne n1 ts l r g show ?thesis by (simp add: eq Let_def)
      next
        case s
        with run ne n1 ts show ?thesis by (simp add: eq Let_def)
      qed
    qed
  qed
next
  case (3 fuel h)
  show ?case by (simp add: mono_at_def)
next
  case (4 fuel key val kvs h)
  show ?case
    unfolding mono_at_def
  proof (intro allI impI)
    fix r g
    assume run: "st_infer_dict_schema fuel ((key, val) # kvs) h = Some r" and le: "fuel \<le> g"
    then obtain s h' rest h'' where v: "st_infer_schema fuel val h = Some (s, h')"
      and d: "st_infer_dict_schema fuel kvs h' = Some (rest, h'')"
      and r: "r = ((key, s) # rest, h'')"
      by (auto split: option.splits)
    from mono_atD [OF 4(1) v le] have "st_infer_schema g val h = Some (s, h')" .
    moreover from mono_atD [OF 4(2) [OF v refl] d le]
    have "st_infer_dict_schema g kvs h' = Some (rest, h'')" .
    ultimately show "st_infer_dict_schema g ((key, val) # kvs) h = Some r"
      using r by simp
  qed
qed

lemma reps_type_names: "reps h rs vs A \<Longrightarrow> map (st_type_name h) rs = map type_name vs"
proof (induction rs arbitrary: vs A)
  case Nil
  then show ?case by (auto elim: reps_NilE)
next
  case (Cons r rs)
  from Cons.prems obtain v vs' A1 A2 where vs: "vs = v # vs'" and r: "rep h r v A1"
    and rest: "reps h rs vs' A2"
    by (auto elim: reps_ConsE)
  from Cons.IH [OF rest] rep_type_name [OF r] vs show ?case by simp
qed

lemma reps_extract_unique_types:
  "reps h rs vs A \<Longrightarrow> st_extract_unique_types h rs = extract_unique_types vs"
  by (simp add: st_extract_unique_types_def extract_unique_types_def reps_type_names)

lemma reps_Nil_iff: "reps h rs vs A \<Longrightarrow> rs = [] \<longleftrightarrow> vs = []"
  by (erule reps.cases) auto

lemma all_items_Inr: "all_items vs = Inr ds \<Longrightarrow> vs = map PDict ds"
proof (induction vs arbitrary: ds)
  case Nil
  then show ?case by simp
next
  case (Cons v vs)
  then show ?case by (cases v) (auto split: sum.splits)
qed

lemma reps_chain:
  "reps h rs vs A \<Longrightarrow> chain_from_iterable vs = Inr flat \<Longrightarrow>
     \<exists>rflat A'. st_chain_from_iterable h rs = Some rflat \<and> reps h rflat flat A' \<and> A' \<subseteq> A"
proof (induction rs arbitrary: vs A flat)
  case Nil
  then have "vs = []" by (auto elim: reps_NilE)
  with Nil.prems(2) have "flat = []" by simp
  with reps_Nil [of h] show ?case by auto
next
  case (Cons r rs)
  from Cons.prems(1) obtain v vs' A1 A2 where vs: "vs = v # vs'" and r: "rep h r v A1"
    and rest: "reps h rs vs' A2" and d: "A1 \<inter> A2 = {}" and A: "A = A1 \<union> A2"
    by (auto elim: reps_ConsE)
  from Cons.prems(2) vs obtain ys flat' where v: "v = PList ys"
    and c: "chain_from_iterable vs' = Inr flat'" and flat: "flat = ys @ flat'"
    by (cases v) (auto split: sum.splits)
  from r v obtain a xs Ax where ra: "r = RRef a" and cell: "cell_at h (RRef a) = Some (CList xs)"
    and xs: "reps h xs ys Ax" and A1: "A1 = insert a Ax"
    by (auto elim: rep_PListE)
  from Cons.IH [OF rest c] obtain rflat' A' where
    sc: "st_chain_from_iterable h rs = Some rflat'" and rf: "reps h rflat' flat' A'"
    and A': "A' \<subseteq> A2"
    by blast
  from d A1 A' have "Ax \<inter> A' = {}" by auto
  from reps_append [OF xs rf this] have "reps h (xs @ rflat') (ys @ flat') (Ax \<union> A')" .
  moreover have "st_chain_from_iterable h (r # rs) = Some (xs @ rflat')"
    using ra cell sc by (simp add: elems_at_cell)
  moreover have "Ax \<union> A' \<subseteq> A" using A A1 A' by auto
  ultimately show ?case using flat by blast
qed

lemma rep_scalar:
  assumes "rep h r v A" and "\<not> isinstance_list v" and "\<not> isinstance_dict v"
  shows "(r = RNone \<longleftrightarrow> v = PNone) \<and> \<not> st_isinstance_list h r \<and> \<not> st_isinstance_dict h r
    \<and> st_type_name h r = type_name v"
  using assms rep_isinstance_list [OF assms(1)] rep_isinstance_dict [OF assms(1)]
    rep_type_name [OF assms(1)]
  by (auto elim: rep.cases)

definition infer_spec :: "pyval \<Rightarrow> bool" where
  "infer_spec v \<longleftrightarrow>
     (\<forall>h r A. rep h r v A \<longrightarrow>
        (\<exists>fuel s h'. st_infer_schema fuel r h = Some (s, h')
           \<and> infer_schema v = Inr s \<and> frame h h' A))"

definition infer_list_spec :: "pyval list \<Rightarrow> bool" where
  "infer_list_spec vs \<longleftrightarrow>
     (\<forall>h rs A. reps h rs vs A \<longrightarrow>
        (\<exists>fuel s h'. st_infer_list_schema fuel rs h = Some (s, h')
           \<and> infer_list_schema vs = Inr s \<and> frame h h' A))"

definition infer_dict_spec :: "pydict \<Rightarrow> bool" where
  "infer_dict_spec items \<longleftrightarrow>
     (\<forall>h kvs A. repd h kvs items A \<longrightarrow>
        (\<exists>fuel s h'. st_infer_dict_schema fuel kvs h = Some (s, h')
           \<and> infer_dict_schema items = Inr s \<and> frame h h' A))"

lemma infer_spec_step:
  assumes L: "isinstance_list obj \<Longrightarrow> infer_list_spec (list_elems obj)"
    and D: "\<not> isinstance_list obj \<Longrightarrow> isinstance_dict obj \<Longrightarrow> infer_dict_spec (dict_items obj)"
  shows "infer_spec obj"
  unfolding infer_spec_def
proof (intro allI impI)
  fix h r A
  assume rp: "rep h r obj A"
  note il = rep_isinstance_list [OF rp] and id = rep_isinstance_dict [OF rp]
  note eq = st_infer_schema.simps [of _ r h]
  show "\<exists>fuel s h'. st_infer_schema fuel r h = Some (s, h') \<and> infer_schema obj = Inr s
      \<and> frame h h' A"
  proof (cases "isinstance_list obj")
    case True
    from rep_listE [OF rp True] obtain a xs Ax where ra: "r = RRef a"
      and cell: "cell_at h (RRef a) = Some (CList xs)" and xs: "reps h xs (list_elems obj) Ax"
      and A: "A = insert a Ax" by metis
    from L [OF True] xs obtain fuel s h' where
      run: "st_infer_list_schema fuel xs h = Some (s, h')"
      and v: "infer_list_schema (list_elems obj) = Inr s" and fr: "frame h h' Ax"
      unfolding infer_list_spec_def by blast
    from cell ra have "elems_at h r = Some xs" by (simp add: elems_at_cell)
    with run True il have "st_infer_schema (Suc fuel) r h = Some (s, h')"
      by (simp add: eq)
    moreover from v True have "infer_schema obj = Inr s"
      by (simp add: infer_schema.simps [of obj])
    moreover from fr have "frame h h' A" by (rule frame_mono) (use A in auto)
    ultimately show ?thesis by blast
  next
    case nl: False
    show ?thesis
    proof (cases "isinstance_dict obj")
      case True
      from rep_dictE [OF rp True] obtain a kvs Ad where ra: "r = RRef a"
        and cell: "cell_at h (RRef a) = Some (CDict kvs)"
        and kvs: "repd h kvs (dict_items obj) Ad" and A: "A = insert a Ad" by metis
      from D [OF nl True] kvs obtain fuel s h' where
        run: "st_infer_dict_schema fuel kvs h = Some (s, h')"
        and v: "infer_dict_schema (dict_items obj) = Inr s" and fr: "frame h h' Ad"
        unfolding infer_dict_spec_def by blast
      from cell ra have "items_at h r = Some kvs" by (simp add: items_at_cell)
      with run True nl il id have "st_infer_schema (Suc fuel) r h = Some (SObject s, h')"
        by (simp add: eq)
      moreover from v True nl have "infer_schema obj = Inr (SObject s)"
        by (simp add: infer_schema.simps [of obj])
      moreover from fr have "frame h h' A" by (rule frame_mono) (use A in auto)
      ultimately show ?thesis by blast
    next
      case False
      note sc = rep_scalar [OF rp nl False]
      from sc have nl': "\<not> st_isinstance_list h r" and nd': "\<not> st_isinstance_dict h r"
        and tn: "st_type_name h r = type_name obj" and none: "r = RNone \<longleftrightarrow> obj = PNone"
        by simp_all
      show ?thesis
      proof (cases "obj = PNone")
        case True
        with none have "r = RNone" by simp
        with nl' nd' have "st_infer_schema (Suc 0) r h = Some (SNull, h)"
          by (simp add: st_infer_schema.simps)
        moreover from True have "infer_schema obj = Inr SNull"
          by (simp add: infer_schema.simps)
        ultimately show ?thesis using frame_refl by blast
      next
        case nn: False
        with none have "r \<noteq> RNone" by simp
        with nl' nd' tn have "st_infer_schema (Suc 0) r h = Some (SKind (type_name obj), h)"
          by (simp add: eq)
        moreover from nn nl False have "infer_schema obj = Inr (SKind (type_name obj))"
          by (simp add: infer_schema.simps [of obj])
        ultimately show ?thesis using frame_refl by blast
      qed
    qed
  qed
qed

lemma infer_dict_spec_nil: "infer_dict_spec []"
  unfolding infer_dict_spec_def
proof (intro allI impI)
  fix h kvs A
  assume "repd h kvs [] A"
  then have "kvs = []" by (auto elim: repd_Nil2E)
  then show "\<exists>fuel s h'. st_infer_dict_schema fuel kvs h = Some (s, h')
      \<and> infer_dict_schema [] = Inr s \<and> frame h h' A"
    using frame_refl by auto
qed

lemma infer_dict_spec_step:
  assumes V: "infer_spec val" and R: "\<And>s. infer_schema val = Inr s \<Longrightarrow> infer_dict_spec items"
  shows "infer_dict_spec ((key, val) # items)"
  unfolding infer_dict_spec_def
proof (intro allI impI)
  fix h kvs A
  assume rd: "repd h kvs ((key, val) # items) A"
  from rd obtain r kvs' A1 A2 where kv: "kvs = (key, r) # kvs'"
    and r: "rep h r val A1" and rest: "repd h kvs' items A2"
    and d: "A1 \<inter> A2 = {}" and A: "A = A1 \<union> A2"
    by (auto elim: repd_Cons2E)
  from V r obtain fuel1 s h1 where run1: "st_infer_schema fuel1 r h = Some (s, h1)"
    and v1: "infer_schema val = Inr s" and fr1: "frame h h1 A1"
    unfolding infer_spec_def by blast
  from frame_repd [OF fr1 rest d] have rest1: "repd h1 kvs' items A2" .
  from R [OF v1] rest1 obtain fuel2 ss h2 where
    run2: "st_infer_dict_schema fuel2 kvs' h1 = Some (ss, h2)"
    and v2: "infer_dict_schema items = Inr ss" and fr2: "frame h1 h2 A2"
    unfolding infer_dict_spec_def by blast
  let ?f = "max fuel1 fuel2"
  from mono_atD [OF st_infer_mono(1) run1, of ?f]
  have "st_infer_schema ?f r h = Some (s, h1)" by simp
  moreover from mono_atD [OF st_infer_mono(3) run2, of ?f]
  have "st_infer_dict_schema ?f kvs' h1 = Some (ss, h2)" by simp
  ultimately have "st_infer_dict_schema ?f kvs h = Some ((key, s) # ss, h2)"
    using kv by simp
  moreover from v1 v2 have "infer_dict_schema ((key, val) # items) = Inr ((key, s) # ss)"
    by simp
  moreover have "frame h h2 A"
  proof (rule frame_trans)
    show "frame h h1 A" using fr1 by (rule frame_mono) (use A in auto)
    show "frame h1 h2 A2" by fact
    show "A2 \<inter> {..<length h} \<subseteq> A" using A by auto
  qed
  ultimately show "\<exists>fuel s h'. st_infer_dict_schema fuel kvs h = Some (s, h')
      \<and> infer_dict_schema ((key, val) # items) = Inr s \<and> frame h h' A"
    by blast
qed

lemma infer_list_spec_step:
  assumes D: "\<And>ds. lst \<noteq> [] \<Longrightarrow> extract_unique_types lst = [''dict''] \<Longrightarrow>
      all_items lst = Inr ds \<Longrightarrow> infer_dict_spec (merge_nested_dicts ds)"
    and L: "\<And>flat. lst \<noteq> [] \<Longrightarrow> extract_unique_types lst = [''list''] \<Longrightarrow>
      chain_from_iterable lst = Inr flat \<Longrightarrow> infer_list_spec flat"
  shows "infer_list_spec lst"
  unfolding infer_list_spec_def
proof (intro allI impI)
  fix h rs A
  assume rp: "reps h rs lst A"
  note ty = reps_extract_unique_types [OF rp]
  note eq = st_infer_list_schema.simps [of _ rs h]
  show "\<exists>fuel s h'. st_infer_list_schema fuel rs h = Some (s, h')
      \<and> infer_list_schema lst = Inr s \<and> frame h h' A"
  proof (cases "lst = []")
    case True
    with reps_Nil_iff [OF rp] have "rs = []" by simp
    then have "st_infer_list_schema 0 rs h = Some (SArray [], h)"
      by (simp add: st_infer_list_schema.simps)
    moreover from True have "infer_list_schema lst = Inr (SArray [])"
      by (simp add: infer_list_schema.simps)
    ultimately show ?thesis using frame_refl by blast
  next
    case ne: False
    with reps_Nil_iff [OF rp] have rne: "rs \<noteq> []" by simp
    show ?thesis
    proof (cases "1 < length (extract_unique_types lst)")
      case True
      with rne ty have "st_infer_list_schema 0 rs h
          = Some (SKinds (set (extract_unique_types lst)), h)"
        by (simp add: eq)
      moreover from True ne have "infer_list_schema lst
          = Inr (SKinds (set (extract_unique_types lst)))"
        by (simp add: infer_list_schema.simps [of lst])
      ultimately show ?thesis using frame_refl by blast
    next
      case n1: False
      let ?t = "type_name (hd lst)"
      note same = extract_unique_types_single [OF ne n1]
      note ts = extract_unique_types_same [OF ne same]
      note veq = infer_list_schema_same [OF ne same]
      consider (d) "?t = ''dict''" | (l) "?t \<noteq> ''dict''" "?t = ''list''"
        | (s) "?t \<noteq> ''dict''" "?t \<noteq> ''list''" by blast
      then show ?thesis
      proof cases
        case d
        with same obtain ds where ai: "all_items lst = Inr ds"
          using all_items_dicts [of lst] by auto
        from all_items_Inr [OF ai] rp have rp': "reps h rs (map PDict ds) A" by simp
        from merge_refines(1) [of ds] rp' obtain fuel1 h1 B' where
          run1: "st_merge_nested_dicts fuel1 rs h = Some (RRef (length h), h1)"
          and acc1: "accum h1 (length h) (merge_nested_dicts ds) B'"
          and B': "B' \<subseteq> A \<union> {length h..<length h1}" and fr1: "frame h h1 A"
          unfolding merge_spec_def by blast
        from acc1 obtain mk where cell: "cell_at h1 (RRef (length h)) = Some (CDict mk)"
          and mk: "repd h1 mk (merge_nested_dicts ds) B'"
          by (auto simp: accum_def)
        from ts d have tsd: "extract_unique_types lst = [''dict'']" by simp
        from D [OF ne tsd ai] mk obtain fuel2 s h2 where
          run2: "st_infer_dict_schema fuel2 mk h1 = Some (s, h2)"
          and v: "infer_dict_schema (merge_nested_dicts ds) = Inr s" and fr2: "frame h1 h2 B'"
          unfolding infer_dict_spec_def by blast
        let ?f = "max fuel1 fuel2"
        from st_merge_mono(1) [rule_format, OF run1, of ?f]
        have "st_merge_nested_dicts ?f rs h = Some (RRef (length h), h1)" by simp
        moreover from mono_atD [OF st_infer_mono(3) run2, of ?f]
        have "st_infer_dict_schema ?f mk h1 = Some (s, h2)" by simp
        ultimately have "st_infer_list_schema ?f rs h = Some (SArray [SObject s], h2)"
          using rne ty tsd cell by (simp add: eq items_at_cell)
        moreover from v ai d have "infer_list_schema lst = Inr (SArray [SObject s])"
          by (simp add: veq)
        moreover have "frame h h2 A"
        proof (rule frame_trans)
          show "frame h h1 A" by fact
          show "frame h1 h2 B'" by fact
          show "B' \<inter> {..<length h} \<subseteq> A" using B' by auto
        qed
        ultimately show ?thesis by blast
      next
        case l
        with same obtain flat where ch: "chain_from_iterable lst = Inr flat"
          using chain_from_iterable_lists [of lst] by auto
        from reps_chain [OF rp ch] obtain rflat A' where
          sc: "st_chain_from_iterable h rs = Some rflat" and rf: "reps h rflat flat A'"
          and A': "A' \<subseteq> A" by blast
        from ts l have tsl: "extract_unique_types lst = [''list'']" by simp
        from L [OF ne tsl ch] rf obtain fuel s h' where
          run: "st_infer_list_schema fuel rflat h = Some (s, h')"
          and v: "infer_list_schema flat = Inr s" and fr: "frame h h' A'"
          unfolding infer_list_spec_def by blast
        from run sc rne ty tsl
        have "st_infer_list_schema (Suc fuel) rs h = Some (SArray [s], h')"
          by (simp add: eq)
        moreover from v ch l have "infer_list_schema lst = Inr (SArray [s])"
          by (simp add: veq)
        moreover from fr A' have "frame h h' A" by (rule frame_mono)
        ultimately show ?thesis by blast
      next
        case s
        with rne ty ts have "st_infer_list_schema 0 rs h = Some (SArray [SKind ?t], h)"
          by (simp add: eq)
        moreover from s have "infer_list_schema lst = Inr (SArray [SKind ?t])"
          by (simp add: veq)
        ultimately show ?thesis using frame_refl by blast
      qed
    qed
  qed
qed

lemma infer_refines:
  "infer_spec obj" "infer_list_spec lst" "infer_dict_spec kvs"
proof (induct obj and lst and kvs rule: infer_schema_infer_list_schema_infer_dict_schema.induct)
  case (1 obj)
  then show ?case by (intro infer_spec_step) auto
next
  case (2 lst)
  show ?case
  proof (rule infer_list_spec_step)
    fix ds
    assume ne: "lst \<noteq> []" and ts: "extract_unique_types lst = [''dict'']"
      and ai: "all_items lst = Inr ds"
    from ts have "\<not> 1 < length (extract_unique_types lst)" by simp
    from 2(1) [OF ne refl this ts refl ai]
    show "infer_dict_spec (merge_nested_dicts ds)" .
  next
    fix flat
    assume ne: "lst \<noteq> []" and ts: "extract_unique_types lst = [''list'']"
      and ch: "chain_from_iterable lst = Inr flat"
    from ts have n1: "\<not> 1 < length (extract_unique_types lst)" by simp
    have nd: "''list'' \<noteq> ''dict''" by simp
    from 2(2) [OF ne refl n1 ts nd refl ch]
    show "infer_list_spec flat" .
  qed
next
  case 3
  show ?case by (rule infer_dict_spec_nil)
next
  case (4 key val kvs)
  then show ?case by (intro infer_dict_spec_step) auto
qed

subsection \<open>Loaded values\<close>

definition loaded :: "store \<Rightarrow> store \<Rightarrow> addr set \<Rightarrow> bool" where
  "loaded h h' A \<longleftrightarrow> frame h h' {} \<and> A \<subseteq> {length h..<length h'}"

lemma below_above_disjoint:
  fixes n :: nat
  assumes "A1 \<subseteq> {..<n}" and "A2 \<subseteq> {n..<k}"
  shows "A1 \<inter> A2 = {}"
proof -
  have "x \<notin> A2" if "x \<in> A1" for x
  proof -
    from that assms(1) have "x < n" by auto
    with assms(2) show ?thesis by auto
  qed
  then show ?thesis by auto
qed

lemma loaded_trans:
  assumes "loaded h h' A1" and "loaded h' h'' A2"
  shows "loaded h h'' (A1 \<union> A2)"
proof -
  from assms have f1: "frame h h' {}" and f2: "frame h' h'' {}"
    and a1: "A1 \<subseteq> {length h..<length h'}" and a2: "A2 \<subseteq> {length h'..<length h''}"
    by (simp_all add: loaded_def)
  from f1 f2 have "frame h h'' {}" by (rule frame_trans) simp
  moreover from f1 f2 have "length h \<le> length h'" "length h' \<le> length h''"
    by (simp_all add: frame_def)
  with a1 a2 have "A1 \<union> A2 \<subseteq> {length h..<length h''}" by auto
  ultimately show ?thesis by (simp add: loaded_def)
qed

lemma load_rep:
  "\<forall>r h'. load v h = (r, h') \<longrightarrow> (\<exists>A. rep h' r v A \<and> loaded h h' A)"
  "\<forall>rs h'. load_list vs h1 = (rs, h') \<longrightarrow> (\<exists>A. reps h' rs vs A \<and> loaded h1 h' A)"
  "\<forall>kvs h'. load_items items h2 = (kvs, h') \<longrightarrow> (\<exists>A. repd h' kvs items A \<and> loaded h2 h' A)"
proof (induct v h and vs h1 and items h2 rule: load_load_list_load_items.induct)
  case (7 vs h)
  show ?case
  proof (intro allI impI)
    fix r h'
    assume ld: "load (PList vs) h = (r, h')"
    obtain rs h1 where l: "load_list vs h = (rs, h1)" by (cases "load_list vs h")
    with ld have r: "r = RRef (length h1)" and h': "h' = h1 @ [CList rs]" by simp_all
    from 7 l obtain A where rp: "reps h1 rs vs A" and lo: "loaded h h1 A" by blast
    have fr: "frame h1 h' {}" unfolding h' by (rule frame_append)
    from frame_reps [OF fr rp] have rp': "reps h' rs vs A" by simp
    have cell: "cell_at h' (RRef (length h1)) = Some (CList rs)"
      by (simp add: h' cell_at_def)
    from rep_bounded(2) [OF rp] have nin: "length h1 \<notin> A" by auto
    from rep_List [OF cell rp' nin] r have "rep h' r (PList vs) (insert (length h1) A)" by simp
    moreover from lo have "loaded h h' (insert (length h1) A)"
      unfolding loaded_def h' by (auto simp: frame_def nth_append)
    ultimately show "\<exists>A. rep h' r (PList vs) A \<and> loaded h h' A" by blast
  qed
next
  case (8 items h)
  show ?case
  proof (intro allI impI)
    fix r h'
    assume ld: "load (PDict items) h = (r, h')"
    obtain kvs h1 where l: "load_items items h = (kvs, h1)" by (cases "load_items items h")
    with ld have r: "r = RRef (length h1)" and h': "h' = h1 @ [CDict kvs]" by simp_all
    from 8 l obtain A where rp: "repd h1 kvs items A" and lo: "loaded h h1 A" by blast
    have fr: "frame h1 h' {}" unfolding h' by (rule frame_append)
    from frame_repd [OF fr rp] have rp': "repd h' kvs items A" by simp
    have cell: "cell_at h' (RRef (length h1)) = Some (CDict kvs)"
      by (simp add: h' cell_at_def)
    from rep_bounded(3) [OF rp] have nin: "length h1 \<notin> A" by auto
    from rep_Dict [OF cell rp' nin] r have "rep h' r (PDict items) (insert (length h1) A)"
      by simp
    moreover from lo have "loaded h h' (insert (length h1) A)"
      unfolding loaded_def h' by (auto simp: frame_def nth_append)
    ultimately show "\<exists>A. rep h' r (PDict items) A \<and> loaded h h' A" by blast
  qed
next
  case (10 v vs h)
  show ?case
  proof (intro allI impI)
    fix rs h''
    assume ld: "load_list (v # vs) h = (rs, h'')"
    obtain r h' where l1: "load v h = (r, h')" by (cases "load v h")
    obtain rs' h2 where l2: "load_list vs h' = (rs', h2)" by (cases "load_list vs h'")
    from ld l1 l2 have rs: "rs = r # rs'" and h'': "h'' = h2" by simp_all
    from 10(1) l1 obtain A1 where r1: "rep h' r v A1" and lo1: "loaded h h' A1" by blast
    from 10(2) [OF l1 [symmetric]] l2 obtain A2 where r2: "reps h2 rs' vs A2"
      and lo2: "loaded h' h2 A2" by blast
    from lo2 have fr: "frame h' h2 {}" by (simp add: loaded_def)
    from frame_rep [OF fr r1] have r1': "rep h2 r v A1" by simp
    from lo2 have "A2 \<subseteq> {length h'..<length h2}" by (simp add: loaded_def)
    with rep_bounded(1) [OF r1] have d: "A1 \<inter> A2 = {}" by (rule below_above_disjoint)
    from reps_Cons [OF r1' r2 d] rs h'' have "reps h'' rs (v # vs) (A1 \<union> A2)" by simp
    moreover have "loaded h h'' (A1 \<union> A2)"
      using loaded_trans [OF lo1 lo2] h'' by simp
    ultimately show "\<exists>A. reps h'' rs (v # vs) A \<and> loaded h h'' A" by blast
  qed
next
  case (12 k v items h)
  show ?case
  proof (intro allI impI)
    fix kvs h''
    assume ld: "load_items ((k, v) # items) h = (kvs, h'')"
    obtain r h' where l1: "load v h = (r, h')" by (cases "load v h")
    obtain kvs' h2 where l2: "load_items items h' = (kvs', h2)" by (cases "load_items items h'")
    from ld l1 l2 have kvs: "kvs = (k, r) # kvs'" and h'': "h'' = h2" by simp_all
    from 12(1) l1 obtain A1 where r1: "rep h' r v A1" and lo1: "loaded h h' A1" by blast
    from 12(2) [OF l1 [symmetric]] l2 obtain A2 where r2: "repd h2 kvs' items A2"
      and lo2: "loaded h' h2 A2" by blast
    from lo2 have fr: "frame h' h2 {}" by (simp add: loaded_def)
    from frame_rep [OF fr r1] have r1': "rep h2 r v A1" by simp
    from lo2 have "A2 \<subseteq> {length h'..<length h2}" by (simp add: loaded_def)
    with rep_bounded(1) [OF r1] have d: "A1 \<inter> A2 = {}" by (rule below_above_disjoint)
    from repd_Cons [OF r1' r2 d] kvs h''
    have "repd h'' kvs ((k, v) # items) (A1 \<union> A2)" by simp
    moreover have "loaded h h'' (A1 \<union> A2)"
      using loaded_trans [OF lo1 lo2] h'' by simp
    ultimately show "\<exists>A. repd h'' kvs ((k, v) # items) A \<and> loaded h h'' A" by blast
  qed
qed (auto simp: loaded_def frame_refl intro: rep_reps_repd.intros)

theorem st_infer_schema_refines:
  assumes "load v h0 = (r, h)"
  shows "\<exists>fuel s h'. st_infer_schema fuel r h = Some (s, h') \<and> infer_schema v = Inr s"
proof -
  from load_rep(1) assms obtain A where "rep h r v A" by blast
  with infer_refines(1) [of v] show ?thesis
    unfolding infer_spec_def by blast
qed

end
